theory Spec2Isabelle
  imports Main "HOL-Library.Sublist" "HOL-Library.AList"
begin

section \<open>JavaScript strings\<close>

text \<open>
  A JavaScript string is modelled as a \<^typ>\<open>string\<close>; a \<^typ>\<open>char\<close> stands for a
  UTF-16 code unit below 256. \<open>s.trim()\<close> removes the white space of that range from
  both ends, \<open>s.includes(t)\<close> tests for an occurrence of \<open>t\<close>, \<open>s.indexOf(t)\<close> is
  the position of the first occurrence or \<open>-1\<close>, and \<open>s.substring(a, b)\<close> clamps its
  arguments to the string and swaps them when they are out of order.
\<close>

definition is_ws :: "char \<Rightarrow> bool" where
  "is_ws c = (c \<in> set [CHR 0x09, CHR 0x0A, CHR 0x0B, CHR 0x0C, CHR 0x0D, CHR 0x20, CHR 0xA0])"

definition trim :: "string \<Rightarrow> string" where
  "trim s = rev (dropWhile is_ws (rev (dropWhile is_ws s)))"

definition startsWith :: "string \<Rightarrow> string \<Rightarrow> bool" where
  "startsWith s t = prefix t s"

fun str_includes :: "string \<Rightarrow> string \<Rightarrow> bool" where
  "str_includes [] t = (t = [])"
| "str_includes (c # cs) t = (prefix t (c # cs) \<or> str_includes cs t)"

fun indexOf :: "string \<Rightarrow> string \<Rightarrow> int" where
  "indexOf [] t = (if t = [] then 0 else - 1)"
| "indexOf (c # cs) t =
     (if prefix t (c # cs) then 0
      else (let i = indexOf cs t in if i < 0 then - 1 else i + 1))"

definition substring :: "string \<Rightarrow> int \<Rightarrow> int \<Rightarrow> string" where
  "substring s a b =
     (let n = int (length s);
          a' = min (max a 0) n;
          b' = min (max b 0) n;
          lo = min a' b';
          hi = max a' b'
      in take (nat (hi - lo)) (drop (nat lo) s))"

section \<open>The link normalizer\<close>

text \<open>
  \<open>analyzeJobLinks\<close> normalizes a link inside a \<open>try\<close> block around \<open>new URL(link)\<close>.
  The code reads three getters of the parsed URL; the platform's URL parser is a parameter
  \<open>parse\<close> of the model, \<open>None\<close> standing for the \<open>TypeError\<close> that \<open>new URL\<close>
  throws, which the \<open>catch\<close> turns into the link itself.
\<close>

record url =
  hostname :: string
  origin :: string
  pathname :: string

definition refinedLink :: "(string \<Rightarrow> url option) \<Rightarrow> string \<Rightarrow> string" where
  "refinedLink parse link =
     (case parse link of
        None \<Rightarrow> link
      | Some u \<Rightarrow>
          if str_includes (hostname u) ''applytojob.com'' then origin u @ pathname u
          else if str_includes (pathname u) ''/apply'' then
            (let idx = indexOf (pathname u) ''/apply''
             in origin u @ substring (pathname u) 0 idx)
          else origin u @ pathname u)"

text \<open>
  Modelled from the platform: \<open>parseURL\<close> is the URL parser on plain web links, those of
  the form \<open>http://host/path?query#fragment\<close> or \<open>https://...\<close> whose host is made of
  labels of lower-case letters separated by single dots and whose path uses letters,
  digits, \<open>/\<close>, \<open>-\<close> and \<open>_\<close> only. On these the parser neither rewrites the host nor
  encodes or collapses anything in the path; an empty path reads as \<open>/\<close>. Outside this
  fragment the model answers \<open>None\<close>, where the platform may still parse; the theorems
  that speak of every link therefore take the parser as a parameter, and \<open>parseURL\<close>
  serves the concrete links.
\<close>

definition host_char :: "char \<Rightarrow> bool" where
  "host_char c = (c \<in> set ''abcdefghijklmnopqrstuvwxyz.'')"

definition path_char :: "char \<Rightarrow> bool" where
  "path_char c =
     (c \<in> set ''abcdefghijklmnopqrstuvwxyzABCDEFGHIJKLMNOPQRSTUVWXYZ0123456789/-_'')"

definition host_ok :: "string \<Rightarrow> bool" where
  "host_ok h =
     (h \<noteq> [] \<and> list_all host_char h \<and> hd h \<noteq> CHR ''.'' \<and> last h \<noteq> CHR ''.''
      \<and> \<not> str_includes h ''..'')"

definition split_scheme :: "string \<Rightarrow> (string \<times> string) option" where
  "split_scheme s =
     (if prefix ''https://'' s then Some (''https'', drop 8 s)
      else if prefix ''http://'' s then Some (''http'', drop 7 s)
      else None)"

definition parseURL :: "string \<Rightarrow> url option" where
  "parseURL s =
     (case split_scheme s of
        None \<Rightarrow> None
      | Some (scheme, rest) \<Rightarrow>
          (let host = takeWhile (\<lambda>c. c \<notin> set ''/?#'') rest;
               after = dropWhile (\<lambda>c. c \<notin> set ''/?#'') rest;
               path = takeWhile (\<lambda>c. c \<notin> set ''?#'') after
           in if host_ok host \<and> list_all path_char path
              then Some \<lparr>hostname = host, origin = scheme @ ''://'' @ host,
                          pathname = (if path = [] then ''/'' else path)\<rparr>
              else None))"

section \<open>JavaScript values, errors and effects\<close>

text \<open>
  The values that \<open>JSON.parse\<close> and the sheet reader produce. An object is an association
  list in insertion order with one entry per key; reading a property that is not there
  gives \<open>undefined\<close>, modelled as \<open>None\<close>. Numbers are integers. A thrown value is an
  error object, of which the code reads \<open>code\<close> and \<open>message\<close>.
\<close>

datatype jsval =
    JNull
  | JBool bool
  | JNum int
  | JStr string
  | JArr "jsval list"
  | JObj "(string \<times> jsval) list"

datatype js_error = Err (code: "string option") (message: "string option")

datatype 'a outcome = Returned 'a | Raised js_error

datatype event =
    Console string string
  | Sleep nat
  | Request string
  | Fetch string

text \<open>\<open>String(n)\<close> for an integer: its decimal digits, found from the last one on.\<close>

definition digit_char :: "nat \<Rightarrow> char" where
  "digit_char d = ''0123456789'' ! d"

function digits_acc :: "nat \<Rightarrow> string \<Rightarrow> string" where
  "digits_acc n acc =
     (if n < 10 then digit_char n # acc
      else digits_acc (n div 10) (digit_char (n mod 10) # acc))"
  by pat_completeness auto
termination
  by (relation "measure fst") auto

declare digits_acc.simps [simp del]

definition decimal :: "nat \<Rightarrow> string" where
  "decimal n = digits_acc n []"

definition number_text :: "int \<Rightarrow> string" where
  "number_text i = (if 0 \<le> i then decimal (nat i) else CHR ''-'' # decimal (nat (- i)))"

fun join_strings :: "string \<Rightarrow> string list \<Rightarrow> string" where
  "join_strings sep [] = []"
| "join_strings sep [x] = x"
| "join_strings sep (x # y # ys) = x @ sep @ join_strings sep (y # ys)"

text \<open>\<open>String(v)\<close>; an array prints its elements separated by commas, \<open>null\<close> as nothing.\<close>

fun toString :: "jsval \<Rightarrow> string" where
  "toString JNull = ''null''"
| "toString (JBool b) = (if b then ''true'' else ''false'')"
| "toString (JNum n) = number_text n"
| "toString (JStr s) = s"
| "toString (JArr xs) =
     join_strings '','' (map (\<lambda>x. if x = JNull then [] else toString x) xs)"
| "toString (JObj kvs) = ''[object Object]''"

definition join :: "jsval list \<Rightarrow> string \<Rightarrow> string" where
  "join xs sep = join_strings sep (map (\<lambda>x. if x = JNull then [] else toString x) xs)"

fun truthy :: "jsval option \<Rightarrow> bool" where
  "truthy None = False"
| "truthy (Some JNull) = False"
| "truthy (Some (JBool b)) = b"
| "truthy (Some (JNum n)) = (n \<noteq> 0)"
| "truthy (Some (JStr s)) = (s \<noteq> [])"
| "truthy (Some (JArr xs)) = True"
| "truthy (Some (JObj kvs)) = True"

definition msg_text :: "js_error \<Rightarrow> string" where
  "msg_text err = (case message err of None \<Rightarrow> ''undefined'' | Some m \<Rightarrow> m)"

section \<open>The classifier\<close>

definition MAX_CONTENT_CHARS :: nat where
  "MAX_CONTENT_CHARS = 12000"


definition SALARY_BUCKETS :: "string list" where
  "SALARY_BUCKETS = [''30K <'', ''60K <'', ''100K <'', ''160K <'', ''200K <'', ''N/A'']"

definition LEVEL_VALUES :: "string list" where
  "LEVEL_VALUES =
     [''Middle'', ''Senior'', ''Staff'', ''Principal'', ''Principle'', ''Lead'', ''Architect'',
      ''N/A'']"

definition validRemote :: "string list" where
  "validRemote = [''Remote'', ''Hybrid'', ''On-site'', ''N/A'']"

record classification =
  remote :: string
  bestStack :: string
  allPossibleStacks :: "jsval list"
  hasSpecialPhrase :: bool
  matchedSpecialPhrases :: "jsval list"
  industry :: string
  annualSalary :: string
  level :: string

definition DEFAULT_CLASSIFICATION :: classification where
  "DEFAULT_CLASSIFICATION =
     \<lparr>remote = ''N/A'', bestStack = ''N/A'', allPossibleStacks = [],
      hasSpecialPhrase = False, matchedSpecialPhrases = [], industry = ''N/A'',
      annualSalary = ''N/A'', level = ''N/A''\<rparr>"

text \<open>
  \<open>parsed.k\<close> is a property of the parsed reply. The object below is the one that the
  \<open>try\<close> block returns; \<open>xs.includes(v)\<close> on a list of strings holds only of a string
  that is in the list. Reading a property of \<open>null\<close> throws a \<open>TypeError\<close>; any other
  value that is not an object has none of the properties.
\<close>

definition get :: "jsval \<Rightarrow> string \<Rightarrow> jsval option" where
  "get v k = (case v of JObj kvs \<Rightarrow> map_of kvs k | _ \<Rightarrow> None)"

definition validated :: "jsval \<Rightarrow> js_error + classification" where
  "validated parsed =
     (if parsed = JNull
      then Inl (Err None (Some ''Cannot read properties of null (reading 'remote')''))
      else Inr
        \<lparr>remote =
           (case get parsed ''remote'' of
              Some (JStr s) \<Rightarrow> (if s \<in> set validRemote then s else ''N/A'')
            | _ \<Rightarrow> ''N/A''),
         bestStack =
           (case get parsed ''bestStack'' of
              Some (JStr s) \<Rightarrow> (if trim s \<noteq> [] then trim s else ''N/A'')
            | _ \<Rightarrow> ''N/A''),
         allPossibleStacks =
           (case get parsed ''allPossibleStacks'' of Some (JArr xs) \<Rightarrow> xs | _ \<Rightarrow> []),
         hasSpecialPhrase = truthy (get parsed ''hasSpecialPhrase''),
         matchedSpecialPhrases =
           (case get parsed ''matchedSpecialPhrases'' of Some (JArr xs) \<Rightarrow> xs | _ \<Rightarrow> []),
         industry =
           (case get parsed ''industry'' of
              Some (JStr s) \<Rightarrow>
                (if s \<in> set [''finance'', ''healthcare'', ''N/A'', []]
                 then (if s = [] then ''N/A'' else s) else ''N/A'')
            | _ \<Rightarrow> ''N/A''),
         annualSalary =
           (case get parsed ''annualSalary'' of
              Some (JStr s) \<Rightarrow> (if s \<in> set SALARY_BUCKETS then s else ''N/A'')
            | _ \<Rightarrow> ''N/A''),
         level =
           (case get parsed ''level'' of
              Some (JStr s) \<Rightarrow>
                (if s \<in> set LEVEL_VALUES
                 then (if s = ''Principle'' then ''Principal'' else s) else ''N/A'')
            | _ \<Rightarrow> ''N/A'')\<rparr>)"

text \<open>
  One attempt of the \<open>try\<close> block: the request, the reading of the reply and
  \<open>JSON.parse\<close> either throw or give the parsed value. The service is a parameter that
  answers each attempt, counted from 1.
\<close>

datatype attempt = Threw js_error | Parsed jsval

definition try_attempt :: "attempt \<Rightarrow> js_error + classification" where
  "try_attempt a = (case a of Threw err \<Rightarrow> Inl err | Parsed v \<Rightarrow> validated v)"

definition msg_includes :: "js_error \<Rightarrow> string \<Rightarrow> bool" where
  "msg_includes err t = (case message err of None \<Rightarrow> False | Some m \<Rightarrow> str_includes m t)"

definition isConnectionError :: "js_error \<Rightarrow> bool" where
  "isConnectionError err =
     (code err = Some ''ECONNREFUSED'' \<or> code err = Some ''ETIMEDOUT''
      \<or> code err = Some ''ENOTFOUND'' \<or> msg_includes err ''401''
      \<or> msg_includes err ''Connection'' \<or> msg_includes err ''timeout'')"

definition after_error :: "js_error \<Rightarrow> nat \<Rightarrow> nat \<Rightarrow> event list" where
  "after_error err attempt maxRetries =
     Console ''warn''
       (''OpenAI classification error (attempt '' @ decimal attempt @ ''/''
        @ decimal maxRetries @ ''): '' @ msg_text err)
     # (if isConnectionError err \<and> attempt < maxRetries then
          [Console ''log''
             (''Retrying in '' @ decimal (2 ^ (attempt - 1) * 1000) @ ''ms...''),
           Sleep (2 ^ (attempt - 1) * 1000)]
        else if attempt = maxRetries then
          [Console ''error''
             (''Failed to classify after '' @ decimal maxRetries
              @ '' attempts. Last error:'')]
        else [])"

function classify_attempts ::
  "(nat \<Rightarrow> attempt) \<Rightarrow> string \<Rightarrow> nat \<Rightarrow> nat \<Rightarrow> event list
     \<Rightarrow> classification outcome \<times> event list" where
  "classify_attempts svc userContent maxRetries attempt tr =
     (if attempt \<le> maxRetries then
        (case try_attempt (svc attempt) of
           Inr c \<Rightarrow> (Returned c, tr @ [Request userContent])
         | Inl err \<Rightarrow>
             classify_attempts svc userContent maxRetries (attempt + 1)
               (tr @ Request userContent # after_error err attempt maxRetries))
      else (Returned DEFAULT_CLASSIFICATION, tr))"
  by pat_completeness auto
termination
  by (relation "measure (\<lambda>(svc, userContent, maxRetries, attempt, tr). maxRetries + 1 - attempt)")
    auto

declare classify_attempts.simps [simp del]

definition classifyWithOpenAI ::
  "(nat \<Rightarrow> attempt) \<Rightarrow> string \<Rightarrow> string \<Rightarrow> string \<Rightarrow> nat
     \<Rightarrow> classification outcome \<times> event list" where
  "classifyWithOpenAI svc jobTitle pageContent apiKey maxRetries =
     (if apiKey = [] then
        (Returned DEFAULT_CLASSIFICATION,
         [Console ''warn'' ''OPENAI_API_KEY not set; using defaults''])
      else if \<not> startsWith apiKey ''sk-'' then
        (Returned DEFAULT_CLASSIFICATION,
         [Console ''error'' ''Invalid OpenAI API key format. Key should start with 'sk-' ''])
      else
        (let content = take MAX_CONTENT_CHARS pageContent;
             userContent =
               ''Job Title: '' @ (if jobTitle = [] then ''Unknown'' else jobTitle)
               @ [CHR 0x0A, CHR 0x0A] @ ''Job description / page content:'' @ [CHR 0x0A]
               @ (if content = [] then ''(no content)'' else content)
         in classify_attempts svc userContent maxRetries 1 []))"

section \<open>The content fetcher\<close>

text \<open>
  The statements of the \<open>try\<close> block of \<open>fetchPageContent\<close>, in order. Each may throw;
  the renderer is a parameter that says which statement throws, if any, and what the main
  document and the sub-frames evaluate to. The session records which of the resources
  that the call opened are still open. \<open>page.close()\<close> is called without \<open>await\<close>
  after the frames are read, so nothing it throws reaches the \<open>catch\<close>.
\<close>

datatype step =
    Launch
  | NewContext
  | NewPage
  | Goto string
  | WaitForTimeout nat
  | MouseWheel
  | Evaluate
  | Frames

record session =
  browserOpen :: bool
  pageOpen :: bool

record render =
  throws :: "nat \<Rightarrow> js_error option"
  mainText :: string
  frameTexts :: "(js_error + string) list"

definition fetch_steps :: "string \<Rightarrow> step list" where
  "fetch_steps url =
     [Launch, NewContext, NewPage, Goto url, WaitForTimeout 12000]
     @ concat (replicate 10 [MouseWheel, WaitForTimeout 2000])
     @ [Evaluate, Frames]"

fun perform :: "step \<Rightarrow> session \<Rightarrow> session" where
  "perform Launch s = s\<lparr>browserOpen := True\<rparr>"
| "perform NewPage s = s\<lparr>pageOpen := True\<rparr>"
| "perform st s = s"

fun run_steps ::
  "(nat \<Rightarrow> js_error option) \<Rightarrow> nat \<Rightarrow> step list \<Rightarrow> session \<Rightarrow> js_error option \<times> session" where
  "run_steps thr k [] s = (None, s)"
| "run_steps thr k (st # sts) s =
     (case thr k of
        Some err \<Rightarrow> (Some err, s)
      | None \<Rightarrow> run_steps thr (k + 1) sts (perform st s))"

fun frames_text :: "(js_error + string) list \<Rightarrow> string \<Rightarrow> event list \<Rightarrow> string \<times> event list" where
  "frames_text [] textContent tr = (textContent, tr)"
| "frames_text (Inl e # fs) textContent tr =
     frames_text fs textContent
       (tr @ [Console ''warn'' (''Could not extract text from iframe: '' @ msg_text e)])"
| "frames_text (Inr frameText # fs) textContent tr =
     frames_text fs
       (if frameText \<noteq> [] \<and> length (trim frameText) > 0
        then textContent @ [CHR 0x0A, CHR 0x0A] @ frameText else textContent)
       tr"

definition fetchPageContent :: "render \<Rightarrow> string \<Rightarrow> string outcome \<times> session \<times> event list" where
  "fetchPageContent r url =
     (case run_steps (throws r) 0 (fetch_steps url) \<lparr>browserOpen = False, pageOpen = False\<rparr> of
        (Some err, s) \<Rightarrow>
          (Returned [], s, [Console ''warn'' (''Failed to fetch '' @ url @ '': '' @ msg_text err)])
      | (None, s) \<Rightarrow>
          (let (textContent, tr) = frames_text (frameTexts r) (mainText r) []
           in (Returned textContent, s\<lparr>pageOpen := False\<rparr>, tr)))"

section \<open>The tabular store\<close>

text \<open>
  A row is an object keyed by column name. A workbook is what a save writes: the header
  list and the rows handed to \<open>json_to_sheet\<close>. The world of a run counts the calls of
  \<open>XLSX.writeFile\<close>, keeps every workbook that a call wrote, in order, and the trace of
  the other effects. The disk is a parameter: it answers the \<open>n\<close>-th call of
  \<open>XLSX.writeFile\<close> with the error it throws, if any.
\<close>

type_synonym row = "(string \<times> jsval) list"

record workbook =
  headers :: "string list"
  fullRows :: "row list"

record world =
  nwrites :: nat
  saved :: "workbook list"
  trace :: "event list"

definition WRITE_RETRIES :: nat where
  "WRITE_RETRIES = 5"

definition WRITE_RETRY_DELAY_MS :: nat where
  "WRITE_RETRY_DELAY_MS = 1500"

definition busyErr :: js_error where
  "busyErr =
     Err (Some ''EBUSY'')
       (Some ''JobLinks.xlsx is busy or locked. Please close it in Excel (or any other program) and try again.'')"

text \<open>
  The loop of \<open>writeWorkbookWithRetry\<close> from a given attempt on. The \<open>throw lastErr\<close>
  after the loop throws the last error caught, or \<open>undefined\<close>, which has neither code
  nor message, when there is none.
\<close>

function write_attempts ::
  "(nat \<Rightarrow> js_error option) \<Rightarrow> workbook \<Rightarrow> nat \<Rightarrow> js_error option \<Rightarrow> world
     \<Rightarrow> unit outcome \<times> world" where
  "write_attempts dsk wb attempt lastErr w =
     (if attempt \<le> WRITE_RETRIES then
        (case dsk (nwrites w) of
           None \<Rightarrow> (Returned (), w\<lparr>nwrites := nwrites w + 1, saved := saved w @ [wb]\<rparr>)
         | Some err \<Rightarrow>
             if code err = Some ''EBUSY'' \<and> attempt < WRITE_RETRIES then
               write_attempts dsk wb (attempt + 1) (Some err)
                 (w\<lparr>nwrites := nwrites w + 1,
                    trace := trace w @ [Sleep (WRITE_RETRY_DELAY_MS * attempt)]\<rparr>)
             else if code err = Some ''EBUSY'' then
               (Raised busyErr, w\<lparr>nwrites := nwrites w + 1\<rparr>)
             else (Raised err, w\<lparr>nwrites := nwrites w + 1\<rparr>))
      else (Raised (case lastErr of None \<Rightarrow> Err None None | Some e \<Rightarrow> e), w))"
  by pat_completeness auto
termination
  by (relation "measure (\<lambda>(dsk, wb, attempt, lastErr, w). WRITE_RETRIES + 1 - attempt)") auto

declare write_attempts.simps [simp del]

definition writeWorkbookWithRetry ::
  "(nat \<Rightarrow> js_error option) \<Rightarrow> workbook \<Rightarrow> world \<Rightarrow> unit outcome \<times> world" where
  "writeWorkbookWithRetry dsk wb w = write_attempts dsk wb 1 None w"

section \<open>The orchestrator\<close>

text \<open>
  What a run of \<open>analyzeJobLinks\<close> receives from outside: whether the input file exists
  and where, the credential of the environment, the rows that the sheet reader returns
  (or the error it throws), the date, the URL parser, and for each row index the
  renderer and the classification service, and the disk.
\<close>

record env =
  fileExists :: bool
  inputPath :: string
  apiKeyEnv :: "string option"
  readRows :: "js_error + row list"
  today :: string
  urlParser :: "string \<Rightarrow> url option"
  renderer :: "nat \<Rightarrow> render"
  service :: "nat \<Rightarrow> nat \<Rightarrow> attempt"
  disk :: "nat \<Rightarrow> js_error option"

text \<open>\<open>process.env.OPENAI_API_KEY || ""\<close>\<close>

definition apiKey_of :: "env \<Rightarrow> string" where
  "apiKey_of e = (case apiKeyEnv e of None \<Rightarrow> [] | Some k \<Rightarrow> k)"

definition DELAY_BETWEEN_FETCHES_MS :: nat where
  "DELAY_BETWEEN_FETCHES_MS = 500"

definition link_of :: "row \<Rightarrow> string" where
  "link_of row =
     (if truthy (map_of row ''Link'')
      then (case map_of row ''Link'' of Some v \<Rightarrow> trim (toString v) | None \<Rightarrow> [])
      else [])"

definition title_of :: "row \<Rightarrow> string" where
  "title_of row =
     (case map_of row ''Title'' of
        None \<Rightarrow> []
      | Some JNull \<Rightarrow> []
      | Some v \<Rightarrow> trim (toString v))"

text \<open>The object pushed to \<open>results\<close>: the row spread first, then the eleven columns.\<close>

definition merged_row :: "row \<Rightarrow> string \<Rightarrow> string \<Rightarrow> string \<Rightarrow> classification \<Rightarrow> row" where
  "merged_row row day refined link c =
     fold (\<lambda>(k, v). AList.update k v)
       [(''Date'', JStr day),
        (''Status'', JStr ''Not Applied''),
        (''Link'', JStr (if refined \<noteq> [] then refined else link)),
        (''Remote'', JStr (remote c)),
        (''BestStack'', JStr (bestStack c)),
        (''AllPossibleStacks'', JStr (join (allPossibleStacks c) '', '')),
        (''SecretRequired'', JStr (if hasSpecialPhrase c then ''Yes'' else ''No'')),
        (''GovernanceAndSecurityPhrases'', JStr (join (matchedSpecialPhrases c) ''; '')),
        (''Industry'', JStr (industry c)),
        (''AnnualSalary'', JStr (annualSalary c)),
        (''Level'', JStr (level c))]
       row"

text \<open>
  The first half of the loop body, for the row at index \<open>i\<close>: normalize, fetch and
  classify when there is a link, then merge. Nothing here catches, so an exception of the
  fetcher or of the classifier would leave the loop.
\<close>

definition process_row :: "env \<Rightarrow> string \<Rightarrow> nat \<Rightarrow> row \<Rightarrow> row outcome \<times> event list" where
  "process_row e apiKey i row =
     (let link = link_of row; title = title_of row
      in if link \<noteq> [] then
           (let refined = refinedLink (urlParser e) link
            in case fetchPageContent (renderer e i) refined of
                 (Raised err, s, tr1) \<Rightarrow> (Raised err, Fetch refined # tr1)
               | (Returned pageText, s, tr1) \<Rightarrow>
                   (case classifyWithOpenAI (service e i) title pageText apiKey 3 of
                      (Raised err, tr2) \<Rightarrow> (Raised err, Fetch refined # tr1 @ tr2)
                    | (Returned c, tr2) \<Rightarrow>
                        (Returned (merged_row row (today e) refined link c),
                         Fetch refined # tr1 @ tr2)))
         else (Returned (merged_row row (today e) [] link DEFAULT_CLASSIFICATION), []))"

text \<open>A row not yet processed, as it is written: one cell for each header.\<close>

definition unprocessed_row :: "string list \<Rightarrow> row \<Rightarrow> row" where
  "unprocessed_row hs r =
     fold (\<lambda>h. AList.update h
             (case map_of r h of
                None \<Rightarrow> JStr []
              | Some v \<Rightarrow> (if v \<noteq> JNull \<and> v \<noteq> JStr [] then v else JStr [])))
       hs []"

text \<open>One iteration of the loop: process the row, push it, write the whole table, pause.\<close>

definition row_step ::
  "env \<Rightarrow> string \<Rightarrow> row list \<Rightarrow> nat \<Rightarrow> row list \<Rightarrow> world \<Rightarrow> unit outcome \<times> row list \<times> world" where
  "row_step e apiKey rows i results w =
     (case process_row e apiKey i (rows ! i) of
        (Raised err, tr) \<Rightarrow> (Raised err, results, w\<lparr>trace := trace w @ tr\<rparr>)
      | (Returned merged, tr) \<Rightarrow>
          (let results' = results @ [merged];
               hs = map fst (results' ! 0);
               unprocessed = map (unprocessed_row hs) (drop (i + 1) rows);
               wb = \<lparr>headers = hs, fullRows = results' @ unprocessed\<rparr>
           in case writeWorkbookWithRetry (disk e) wb (w\<lparr>trace := trace w @ tr\<rparr>) of
                (Raised err, w') \<Rightarrow> (Raised err, results', w')
              | (Returned u, w') \<Rightarrow>
                  (Returned (), results',
                   if i < length rows - 1
                   then w'\<lparr>trace := trace w' @ [Sleep DELAY_BETWEEN_FETCHES_MS]\<rparr>
                   else w')))"

function row_loop ::
  "env \<Rightarrow> string \<Rightarrow> row list \<Rightarrow> nat \<Rightarrow> row list \<Rightarrow> world \<Rightarrow> unit outcome \<times> world" where
  "row_loop e apiKey rows i results w =
     (if i < length rows then
        (case row_step e apiKey rows i results w of
           (Raised err, results', w') \<Rightarrow> (Raised err, w')
         | (Returned u, results', w') \<Rightarrow> row_loop e apiKey rows (i + 1) results' w')
      else (Returned (), w))"
  by pat_completeness auto
termination
  by (relation "measure (\<lambda>(e, apiKey, rows, i, results, w). length rows - i)") auto

declare row_loop.simps [simp del]

definition analyzeJobLinks :: "env \<Rightarrow> (string \<times> string) outcome \<times> world" where
  "analyzeJobLinks e =
     (let w0 = \<lparr>nwrites = 0, saved = [], trace = []\<rparr>
      in if \<not> fileExists e then
           (Raised (Err None (Some (''JobLinks.xlsx not found at '' @ inputPath e))), w0)
         else
           (let apiKey = apiKey_of e
            in case readRows e of
                 Inl err \<Rightarrow> (Raised err, w0)
               | Inr rows \<Rightarrow>
                   (let hasLinkColumn = (rows = [] \<or> ''Link'' \<in> set (map fst (rows ! 0)))
                    in if \<not> hasLinkColumn then
                         (Raised (Err None (Some
                            (''JobLinks.xlsx must have a '' @ [CHR 0x22] @ ''Link'' @ [CHR 0x22]
                             @ '' column. Found: ''
                             @ join_strings '', '' (map fst (rows ! 0))))), w0)
                       else
                         (case row_loop e apiKey rows 0 [] w0 of
                            (Raised err, w) \<Rightarrow> (Raised err, w)
                          | (Returned u, w) \<Rightarrow>
                              (Returned (inputPath e, ''JobLinks.xlsx''), w)))))"

section \<open>Observations\<close>

text \<open>
  What the properties below read off a run. Of a trace: the pauses, in milliseconds, and
  the requests sent to the service. Of the disk: whether a call of \<open>XLSX.writeFile\<close>
  failed with the code \<open>EBUSY\<close>. Of a row: the content of a column, where a cell that is
  missing, \<open>null\<close> or empty reads as the empty string, as it does when the sheet is read
  back.
\<close>

definition sleeps :: "event list \<Rightarrow> nat list" where
  "sleeps tr = concat (map (\<lambda>ev. case ev of Sleep ms \<Rightarrow> [ms] | _ \<Rightarrow> []) tr)"

definition requests :: "event list \<Rightarrow> string list" where
  "requests tr = concat (map (\<lambda>ev. case ev of Request u \<Rightarrow> [u] | _ \<Rightarrow> []) tr)"

definition is_busy :: "js_error option \<Rightarrow> bool" where
  "is_busy r = (case r of None \<Rightarrow> False | Some err \<Rightarrow> code err = Some ''EBUSY'')"

definition cell :: "row \<Rightarrow> string \<Rightarrow> jsval" where
  "cell r k = (case map_of r k of None \<Rightarrow> JStr [] | Some v \<Rightarrow> (if v = JNull then JStr [] else v))"

text \<open>
  The merged row that the loop body produces for the row at index \<open>j\<close>, and the workbook
  that the save after row \<open>j\<close> is handed: the merged rows up to \<open>j\<close>, then the rows
  after \<open>j\<close>, each laid out on the headers of the first merged row.
\<close>

definition merged_at :: "env \<Rightarrow> string \<Rightarrow> row list \<Rightarrow> nat \<Rightarrow> row" where
  "merged_at e apiKey rows j =
     (case fst (process_row e apiKey j (rows ! j)) of Returned m \<Rightarrow> m | Raised err \<Rightarrow> [])"

definition snapshot :: "env \<Rightarrow> string \<Rightarrow> row list \<Rightarrow> nat \<Rightarrow> workbook" where
  "snapshot e apiKey rows j =
     \<lparr>headers = map fst (merged_at e apiKey rows 0),
      fullRows = map (merged_at e apiKey rows) [0..<j + 1]
        @ map (unprocessed_row (map fst (merged_at e apiKey rows 0))) (drop (j + 1) rows)\<rparr>"

section \<open>Example scenarios\<close>

text \<open>
  Services: one whose every reply names a stack outside the list and the level
  \<open>Principle\<close>; one that is down (its second reply parses to \<open>null\<close>, every other
  request times out), with what each attempt on it catches; and one that classifies a
  backend posting.
\<close>

definition reply_wizard :: "nat \<Rightarrow> attempt" where
  "reply_wizard n = Parsed (JObj [(''bestStack'', JStr ''Wizard''), (''level'', JStr ''Principle'')])"

definition reply_down :: "nat \<Rightarrow> attempt" where
  "reply_down n =
     (if n = 2 then Parsed JNull else Threw (Err (Some ''ETIMEDOUT'') (Some ''Connection error.'')))"

definition errs_down :: "nat \<Rightarrow> js_error" where
  "errs_down n =
     (if n = 2 then Err None (Some ''Cannot read properties of null (reading 'remote')'')
      else Err (Some ''ETIMEDOUT'') (Some ''Connection error.''))"

definition reply_backend :: "nat \<Rightarrow> attempt" where
  "reply_backend n =
     Parsed (JObj [(''remote'', JStr ''Remote''), (''bestStack'', JStr ''Backend''),
       (''allPossibleStacks'', JArr [JStr ''Backend'']), (''hasSpecialPhrase'', JBool False),
       (''matchedSpecialPhrases'', JArr []), (''industry'', JStr ''N/A''),
       (''annualSalary'', JStr ''100K <''), (''level'', JStr ''Senior'')])"

text \<open>
  Disks: one that is free, one that is locked during the first two calls, one that stays
  locked, and one that denies access.
\<close>

definition ebusy :: js_error where
  "ebusy = Err (Some ''EBUSY'') (Some ''EBUSY: resource busy or locked, open JobLinks.xlsx'')"

definition eacces :: js_error where
  "eacces = Err (Some ''EACCES'') (Some ''EACCES: permission denied, open JobLinks.xlsx'')"

definition disk_free :: "nat \<Rightarrow> js_error option" where
  "disk_free n = None"

definition disk_busy_twice :: "nat \<Rightarrow> js_error option" where
  "disk_busy_twice n = (if n < 2 then Some ebusy else None)"

definition disk_always_busy :: "nat \<Rightarrow> js_error option" where
  "disk_always_busy n = Some ebusy"

definition disk_denied :: "nat \<Rightarrow> js_error option" where
  "disk_denied n = Some eacces"

definition world0 :: world where
  "world0 = \<lparr>nwrites = 0, saved = [], trace = []\<rparr>"

definition book0 :: workbook where
  "book0 = \<lparr>headers = [''Title'', ''Link''], fullRows = [[(''Title'', JStr ''QA''), (''Link'', JStr [])]]\<rparr>"

text \<open>
  Renderers: one on which every statement succeeds, and one on which the fourth
  statement, \<open>page.goto\<close>, throws.
\<close>

definition render_ok :: render where
  "render_ok = \<lparr>throws = (\<lambda>k. None), mainText = ''Job text'', frameTexts = []\<rparr>"

definition render_goto_fails :: render where
  "render_goto_fails =
     \<lparr>throws = (\<lambda>k. if k = 3 then Some (Err None (Some ''net::ERR_NAME_NOT_RESOLVED'')) else None),
      mainText = [], frameTexts = []\<rparr>"

text \<open>Runs: over a sheet with no data rows, and over two rows, the second with no link.\<close>

definition env_empty :: env where
  "env_empty =
     \<lparr>fileExists = True, inputPath = ''/srv/backend/output/JobLinks.xlsx'',
      apiKeyEnv = Some ''sk-key'', readRows = Inr [], today = ''11/2/2026'',
      urlParser = parseURL, renderer = (\<lambda>i. render_ok), service = (\<lambda>i. reply_wizard),
      disk = disk_always_busy\<rparr>"

definition two_rows :: "row list" where
  "two_rows =
     [[(''Title'', JStr ''Backend Engineer''),
       (''Link'', JStr ''https://jobs.example.com/posting/42/apply/step1'')],
      [(''Title'', JStr ''QA''), (''Link'', JStr [])]]"

definition env_two_rows :: env where
  "env_two_rows =
     \<lparr>fileExists = True, inputPath = ''/srv/backend/output/JobLinks.xlsx'',
      apiKeyEnv = Some ''sk-key'', readRows = Inr two_rows, today = ''11/2/2026'',
      urlParser = parseURL, renderer = (\<lambda>i. render_ok), service = (\<lambda>i. reply_backend),
      disk = disk_free\<rparr>"

section \<open>Properties of the string operations\<close>

lemma str_includes_iff: "str_includes s t \<longleftrightarrow> (\<exists>p r. s = p @ t @ r)"
proof (induction s)
  case Nil
  then show ?case by auto
next
  case (Cons c cs)
  show ?case
  proof
    assume "str_includes (c # cs) t"
    then consider "prefix t (c # cs)" | "str_includes cs t" by auto
    then show "\<exists>p r. c # cs = p @ t @ r"
    proof cases
      case 1
      then obtain r where "c # cs = t @ r" by (auto simp: prefix_def)
      then have "c # cs = [] @ t @ r" by simp
      then show ?thesis by blast
    next
      case 2
      with Cons obtain p r where "cs = p @ t @ r" by blast
      then have "c # cs = (c # p) @ t @ r" by simp
      then show ?thesis by blast
    qed
  next
    assume "\<exists>p r. c # cs = p @ t @ r"
    then obtain p r where pr: "c # cs = p @ t @ r" by blast
    show "str_includes (c # cs) t"
    proof (cases p)
      case Nil
      with pr have "prefix t (c # cs)" by (simp add: prefix_def)
      then show ?thesis by simp
    next
      case (Cons a p')
      with pr have "cs = p' @ t @ r" by simp
      with Cons.IH have "str_includes cs t" by blast
      then show ?thesis by simp
    qed
  qed
qed

lemma indexOf_absent: "\<not> str_includes s t \<Longrightarrow> indexOf s t = - 1"
  by (induction s) (auto simp: Let_def)

lemma indexOf_range: "str_includes s t \<Longrightarrow> 0 \<le> indexOf s t \<and> indexOf s t \<le> int (length s)"
  by (induction s) (auto simp: Let_def indexOf_absent)


lemma indexOf_least:
  "s = p @ t @ r \<Longrightarrow> indexOf s t \<le> int (length p)"
proof (induction s arbitrary: p)
  case Nil
  then show ?case by simp
next
  case (Cons c cs)
  show ?case
  proof (cases "prefix t (c # cs)")
    case True
    then show ?thesis by simp
  next
    case False
    then have "p \<noteq> []" using Cons.prems by (auto simp: prefix_def)
    then obtain a p' where p: "p = a # p'" by (cases p) auto
    with Cons.prems have "cs = p' @ t @ r" by simp
    with Cons.IH have "indexOf cs t \<le> int (length p')" by blast
    with False p show ?thesis by (simp add: Let_def)
  qed
qed

lemma substring_take:
  "0 \<le> i \<Longrightarrow> i \<le> int (length s) \<Longrightarrow> substring s 0 i = take (nat i) s"
  by (simp add: substring_def Let_def min_def max_def)

lemma take_indexOf_clean:
  assumes "t \<noteq> []"
  shows "\<not> str_includes (take (nat (indexOf s t)) s) t"
proof
  assume "str_includes (take (nat (indexOf s t)) s) t"
  then obtain p r where pr: "take (nat (indexOf s t)) s = p @ t @ r"
    using str_includes_iff by blast
  have "s = take (nat (indexOf s t)) s @ drop (nat (indexOf s t)) s" by simp
  with pr have s: "s = p @ t @ (r @ drop (nat (indexOf s t)) s)" by simp
  then have le: "indexOf s t \<le> int (length p)" by (rule indexOf_least)
  from s have "str_includes s t" using str_includes_iff by blast
  then have "0 \<le> indexOf s t" using indexOf_range by blast
  from pr have "length (take (nat (indexOf s t)) s) = length p + length t + length r" by simp
  then have "length p + length t \<le> nat (indexOf s t)" by simp
  with le assms show False by (cases t) auto
qed

section \<open>Properties of the link normalizer\<close>

lemmas parseURL_eval = parseURL_def split_scheme_def host_ok_def host_char_def path_char_def Let_def

lemma refinedLink_truncates:
  assumes "parse link = Some u"
    and "\<not> str_includes (hostname u) ''applytojob.com''"
    and "str_includes (pathname u) ''/apply''"
  shows "refinedLink parse link = origin u @ take (nat (indexOf (pathname u) ''/apply'')) (pathname u)"
  using assms indexOf_range [OF assms(3)]
  by (simp add: refinedLink_def Let_def substring_take)

text \<open>
  Claim C3, as stated, fails on its first example: the host \<open>boards.applytojob.com\<close>
  contains the apply-proxy domain, so the first rule keeps the whole path and the link does
  not normalize to \<open>https://boards.applytojob.com/company/abc123\<close>.
\<close>

theorem normalizer_examples_counterexample:
  "refinedLink parseURL ''https://boards.applytojob.com/company/abc123/apply?ref=x''
     \<noteq> ''https://boards.applytojob.com/company/abc123''"
  by (simp add: refinedLink_def parseURL_eval)

text \<open>
  Claim C3, amended: \<open>https://boards.applytojob.com/company/abc123/apply?ref=x\<close>
  normalizes to \<open>https://boards.applytojob.com/company/abc123/apply\<close> (origin and
  path, the query dropped);
  \<open>https://jobs.example.com/posting/42/apply/step1\<close> normalizes to
  \<open>https://jobs.example.com/posting/42\<close>; and
  \<open>https://jobs.example.com/posting/42?utm=y\<close> normalizes to
  \<open>https://jobs.example.com/posting/42\<close>.
\<close>

theorem normalizer_examples:
  "refinedLink parseURL ''https://boards.applytojob.com/company/abc123/apply?ref=x''
     = ''https://boards.applytojob.com/company/abc123/apply''
   \<and> refinedLink parseURL ''https://jobs.example.com/posting/42/apply/step1''
     = ''https://jobs.example.com/posting/42''
   \<and> refinedLink parseURL ''https://jobs.example.com/posting/42?utm=y''
     = ''https://jobs.example.com/posting/42''"
  by (simp add: refinedLink_def parseURL_eval substring_def)

text \<open>
  Claim C3, the amended examples used at the first link.
\<close>

theorem normalizer_examples_witness:
  "refinedLink parseURL ''https://boards.applytojob.com/company/abc123/apply?ref=x''
     = ''https://boards.applytojob.com'' @ ''/company/abc123/apply''"
  using normalizer_examples by simp



text \<open>
  Claim C9, as stated, fails: \<open>https://jobs.example.com/apply\<close> parses, its path
  is cut at index 0 and the normalizer gives \<open>https://jobs.example.com\<close>; that
  output parses with the path \<open>/\<close>, so a second pass gives
  \<open>https://jobs.example.com/\<close>.
\<close>

theorem refinedLink_idempotent_counterexample:
  "parseURL ''https://jobs.example.com/apply'' \<noteq> None
   \<and> refinedLink parseURL (refinedLink parseURL ''https://jobs.example.com/apply'')
     \<noteq> refinedLink parseURL ''https://jobs.example.com/apply''"
  by (simp add: refinedLink_def parseURL_eval substring_def)

text \<open>
  Claim C9, amended: for every link that parses, if the normalizer's output parses back
  to the same host name and origin with the output's own path, then normalizing the
  output gives the output again. (The cut at the first \<open>/apply\<close> leaves no
  occurrence behind, so the second pass applies the last rule.)
\<close>

theorem refinedLink_idempotent:
  assumes "parse link = Some u"
    and "parse (refinedLink parse link) = Some u'"
    and "hostname u' = hostname u"
    and "origin u' = origin u"
    and "origin u' @ pathname u' = refinedLink parse link"
  shows "refinedLink parse (refinedLink parse link) = refinedLink parse link"
proof (cases "str_includes (hostname u) ''applytojob.com''")
  case True
  with assms show ?thesis by (simp add: refinedLink_def)
next
  case host: False
  show ?thesis
  proof (cases "str_includes (pathname u) ''/apply''")
    case True
    with assms(1) host have r: "refinedLink parse link
        = origin u @ take (nat (indexOf (pathname u) ''/apply'')) (pathname u)"
      by (rule refinedLink_truncates)
    with assms(4,5) have "pathname u' = take (nat (indexOf (pathname u) ''/apply'')) (pathname u)"
      by simp
    then have "\<not> str_includes (pathname u') ''/apply''"
      using take_indexOf_clean [of "''/apply''" "pathname u"] by simp
    with assms host show ?thesis by (simp add: refinedLink_def)
  next
    case False
    with assms host have "pathname u' = pathname u" by (simp add: refinedLink_def)
    with assms host False show ?thesis by (simp add: refinedLink_def)
  qed
qed

text \<open>
  Claim C9, amended, at \<open>https://jobs.example.com/posting/42/apply/step1\<close>.
\<close>

theorem refinedLink_idempotent_witness:
  "refinedLink parseURL (refinedLink parseURL ''https://jobs.example.com/posting/42/apply/step1'')
     = refinedLink parseURL ''https://jobs.example.com/posting/42/apply/step1''
   \<and> refinedLink parseURL ''https://jobs.example.com/posting/42/apply/step1''
     = ''https://jobs.example.com/posting/42''"
proof -
  let ?l = "''https://jobs.example.com/posting/42/apply/step1''"
  let ?u = "\<lparr>hostname = ''jobs.example.com'', origin = ''https://jobs.example.com'',
                 pathname = ''/posting/42/apply/step1''\<rparr>"
  let ?u' = "\<lparr>hostname = ''jobs.example.com'', origin = ''https://jobs.example.com'',
                 pathname = ''/posting/42''\<rparr>"
  have r: "refinedLink parseURL ?l = ''https://jobs.example.com/posting/42''"
    by (simp add: refinedLink_def parseURL_eval substring_def)
  have a: "parseURL ?l = Some ?u" by (simp add: parseURL_eval)
  have b: "parseURL (refinedLink parseURL ?l) = Some ?u'"
    unfolding r by (simp add: parseURL_eval)
  have "refinedLink parseURL (refinedLink parseURL ?l) = refinedLink parseURL ?l"
    by (rule refinedLink_idempotent [OF a b]) (simp_all add: r)
  with r show ?thesis by simp
qed

text \<open>
  On the links that \<open>parseURL\<close> reads, the output parses back as required unless the
  cut empties the path: the normalizer is idempotent on a link whose host contains
  \<open>applytojob.com\<close> or whose path does not begin with \<open>/apply\<close>; on the others
  the first pass gives the origin and the second appends \<open>/\<close>.
\<close>

lemma host_char_not_delim: "host_char c \<Longrightarrow> c \<notin> set ''/?#''"
proof
  assume "host_char c" and "c \<in> set ''/?#''"
  then consider "host_char (CHR ''/'')" | "host_char (CHR ''?'')" | "host_char (CHR ''#'')"
    by auto
  then show False by cases (simp_all add: host_char_def)
qed

lemma path_char_not_delim: "path_char c \<Longrightarrow> c \<notin> set ''?#''"
proof
  assume "path_char c" and "c \<in> set ''?#''"
  then consider "path_char (CHR ''?'')" | "path_char (CHR ''#'')"
    by auto
  then show False by cases (simp_all add: path_char_def)
qed

lemma path_char_slash: "path_char (CHR ''/'')"
  by (simp add: path_char_def)

lemma split_scheme_origin:
  assumes "split_scheme s = Some (scheme, rest)"
  shows "split_scheme (scheme @ ''://'' @ t) = Some (scheme, t)"
proof -
  from assms have "scheme = ''https'' \<or> scheme = ''http''"
    by (auto simp: split_scheme_def split: if_splits)
  then show ?thesis by (auto simp: split_scheme_def)
qed

lemma parseURL_parts:
  assumes "parseURL s = Some u"
  obtains scheme rest where "split_scheme s = Some (scheme, rest)"
    and "origin u = scheme @ ''://'' @ hostname u"
    and "host_ok (hostname u)"
    and "list_all path_char (pathname u)"
    and "\<exists>q. pathname u = CHR ''/'' # q"
proof -
  obtain scheme rest where sp: "split_scheme s = Some (scheme, rest)"
  proof (cases "split_scheme s")
    case None
    with assms show ?thesis by (simp only: parseURL_def option.case option.distinct)
  next
    case (Some sr)
    with that show ?thesis by (cases sr) blast
  qed
  define nd where "nd = (\<lambda>c. c \<notin> set ''/?#'')"
  define nq where "nq = (\<lambda>c. c \<notin> set ''?#'')"
  define host where "host = takeWhile nd rest"
  define after where "after = dropWhile nd rest"
  define path where "path = takeWhile nq after"
  have e: "(if host_ok host \<and> list_all path_char path
            then Some \<lparr>hostname = host, origin = scheme @ ''://'' @ host,
                        pathname = (if path = [] then ''/'' else path)\<rparr>
            else None) = Some u"
    using assms
    unfolding parseURL_def sp option.case prod.case Let_def host_def after_def path_def nd_def nq_def .
  have ok: "host_ok host \<and> list_all path_char path"
  proof (rule ccontr)
    assume "\<not> (host_ok host \<and> list_all path_char path)"
    with e show False by (simp only: if_False option.distinct)
  qed
  with e have "Some \<lparr>hostname = host, origin = scheme @ ''://'' @ host,
                        pathname = (if path = [] then ''/'' else path)\<rparr> = Some u"
    by (simp only: if_P)
  then have u: "u = \<lparr>hostname = host, origin = scheme @ ''://'' @ host,
                        pathname = (if path = [] then ''/'' else path)\<rparr>"
    by (simp only: option.inject)
  have sel: "nq c \<Longrightarrow> \<not> nd c \<Longrightarrow> c = CHR ''/''" for c
    by (simp add: nd_def nq_def)
  have slash: "\<exists>q. pathname u = CHR ''/'' # q"
  proof (cases "path = []")
    case True
    with u show ?thesis by simp
  next
    case False
    then obtain c cs where a: "after = c # cs" unfolding path_def by (cases after) auto
    then have "\<not> nd c" using hd_dropWhile [of nd rest] unfolding after_def by auto
    moreover from False a have "nq c" unfolding path_def by (auto split: if_splits)
    ultimately have "c = CHR ''/''" using sel by blast
    with a \<open>nq c\<close> have "path = CHR ''/'' # takeWhile nq cs" unfolding path_def by simp
    with u False show ?thesis by simp
  qed
  from u ok have "origin u = scheme @ ''://'' @ hostname u" "host_ok (hostname u)"
    "list_all path_char (pathname u)"
    by (simp_all add: path_char_slash)
  with sp slash that show ?thesis by blast
qed

lemma parseURL_reparse:
  assumes "parseURL s = Some u" and "prefix p (pathname u)"
  shows "parseURL (origin u @ p)
    = Some \<lparr>hostname = hostname u, origin = origin u, pathname = (if p = [] then ''/'' else p)\<rparr>"
proof -
  from assms(1) obtain scheme rest where sp: "split_scheme s = Some (scheme, rest)"
    and o: "origin u = scheme @ ''://'' @ hostname u"
    and h: "host_ok (hostname u)"
    and pc: "list_all path_char (pathname u)"
    and sl: "\<exists>q. pathname u = CHR ''/'' # q"
    by (rule parseURL_parts)
  define nd where "nd = (\<lambda>c. c \<notin> set ''/?#'')"
  define nq where "nq = (\<lambda>c. c \<notin> set ''?#'')"
  have nd_slash: "\<not> nd (CHR ''/'')" by (simp add: nd_def)
  from assms(2) obtain r where r: "pathname u = p @ r" by (auto simp: prefix_def)
  with pc have pp: "list_all path_char p" by simp
  from h have hc: "\<forall>c\<in>set (hostname u). nd c"
    unfolding nd_def using host_char_not_delim by (simp add: host_ok_def list_all_iff del: set_simps list.set)
  from pp have pd: "\<forall>c\<in>set p. nq c"
    unfolding nq_def using path_char_not_delim by (simp add: list_all_iff del: set_simps list.set)
  have p0: "p = [] \<or> (\<exists>q. p = CHR ''/'' # q)"
    using sl r by (cases p) auto
  have tw: "takeWhile nd (hostname u @ p) = hostname u"
    using hc p0 nd_slash by (auto simp: takeWhile_append2 takeWhile_eq_all_conv)
  have dw: "dropWhile nd (hostname u @ p) = p"
    using hc p0 nd_slash by (auto simp: dropWhile_append2 dropWhile_eq_Nil_conv)
  have tp: "takeWhile nq p = p"
    using pd by (simp add: takeWhile_eq_all_conv)
  have ss: "split_scheme (origin u @ p) = Some (scheme, hostname u @ p)"
    using split_scheme_origin [OF sp, of "hostname u @ p"] o by simp
  have "parseURL (origin u @ p)
    = (if host_ok (takeWhile nd (hostname u @ p))
          \<and> list_all path_char (takeWhile nq (dropWhile nd (hostname u @ p)))
       then Some \<lparr>hostname = takeWhile nd (hostname u @ p),
                  origin = scheme @ ''://'' @ takeWhile nd (hostname u @ p),
                  pathname = (if takeWhile nq (dropWhile nd (hostname u @ p)) = [] then ''/''
                              else takeWhile nq (dropWhile nd (hostname u @ p)))\<rparr>
       else None)"
    unfolding parseURL_def ss option.case prod.case Let_def nd_def nq_def ..
  also have "\<dots> = Some \<lparr>hostname = hostname u, origin = origin u,
      pathname = (if p = [] then ''/'' else p)\<rparr>"
    unfolding tw dw tp o using h pp by (simp only: simp_thms if_True)
  finally show ?thesis .
qed


lemma refinedLink_parseURL_idempotent:
  assumes "parseURL link = Some u"
    and "str_includes (hostname u) ''applytojob.com'' \<or> indexOf (pathname u) ''/apply'' \<noteq> 0"
  shows "refinedLink parseURL (refinedLink parseURL link) = refinedLink parseURL link"
proof -
  from assms(1) obtain q where q: "pathname u = CHR ''/'' # q"
    by (rule parseURL_parts) blast
  have "\<exists>p. p \<noteq> [] \<and> prefix p (pathname u) \<and> refinedLink parseURL link = origin u @ p
      \<and> (str_includes (hostname u) ''applytojob.com'' \<or> \<not> str_includes p ''/apply'')"
  proof (cases "\<not> str_includes (hostname u) ''applytojob.com'' \<and> str_includes (pathname u) ''/apply''")
    case True
    let ?p = "take (nat (indexOf (pathname u) ''/apply'')) (pathname u)"
    from True assms(1) have r: "refinedLink parseURL link = origin u @ ?p"
      by (simp add: refinedLink_truncates)
    from True have "0 \<le> indexOf (pathname u) ''/apply''" using indexOf_range by blast
    with True assms(2) have "0 < nat (indexOf (pathname u) ''/apply'')" by simp
    with q have "?p \<noteq> []" by (cases "nat (indexOf (pathname u) ''/apply'')") simp_all
    moreover have "prefix ?p (pathname u)" by (rule take_is_prefix)
    moreover have "\<not> str_includes ?p ''/apply''" by (rule take_indexOf_clean) simp
    ultimately show ?thesis using r by blast
  next
    case False
    with assms(1) have "refinedLink parseURL link = origin u @ pathname u"
      by (auto simp: refinedLink_def)
    with q False show ?thesis by auto
  qed
  then obtain p where p: "p \<noteq> []" "prefix p (pathname u)"
    and r: "refinedLink parseURL link = origin u @ p"
    and c: "str_includes (hostname u) ''applytojob.com'' \<or> \<not> str_includes p ''/apply''"
    by blast
  from parseURL_reparse [OF assms(1) p(2)] p(1)
  have "parseURL (origin u @ p)
      = Some \<lparr>hostname = hostname u, origin = origin u, pathname = p\<rparr>" by simp
  with c have "refinedLink parseURL (origin u @ p) = origin u @ p"
    by (auto simp: refinedLink_def)
  with r show ?thesis by simp
qed

lemma refinedLink_parseURL_apply_first:
  assumes "parseURL link = Some u"
    and "\<not> str_includes (hostname u) ''applytojob.com''"
    and "indexOf (pathname u) ''/apply'' = 0"
  shows "refinedLink parseURL link = origin u"
    and "refinedLink parseURL (origin u) = origin u @ ''/''"
proof -
  from assms(3) have inc: "str_includes (pathname u) ''/apply''"
    using indexOf_absent [of "pathname u" "''/apply''"] by auto
  with assms show "refinedLink parseURL link = origin u"
    by (simp add: refinedLink_truncates)
  have "prefix [] (pathname u)" by simp
  from parseURL_reparse [OF assms(1) this]
  have "parseURL (origin u) = Some \<lparr>hostname = hostname u, origin = origin u, pathname = ''/''\<rparr>"
    by simp
  with assms(2) show "refinedLink parseURL (origin u) = origin u @ ''/''"
    by (simp add: refinedLink_def)
qed

section \<open>Properties of the classifier\<close>




lemma classify_attempts_result:
  "\<exists>c tr'. classify_attempts svc u m a tr = (Returned c, tr')
     \<and> (c = DEFAULT_CLASSIFICATION \<or> (\<exists>n v. a \<le> n \<and> n \<le> m \<and> svc n = Parsed v \<and> validated v = Inr c))"
proof (induction svc u m a tr rule: classify_attempts.induct)
  case (1 svc u m a tr)
  show ?case
  proof (cases "a \<le> m")
    case False
    then show ?thesis by (simp add: classify_attempts.simps [of svc u m a tr])
  next
    case le: True
    show ?thesis
    proof (cases "try_attempt (svc a)")
      case (Inr c)
      then obtain v where "svc a = Parsed v" "validated v = Inr c"
        by (auto simp: try_attempt_def split: attempt.splits)
      with le Inr show ?thesis
        by (auto simp: classify_attempts.simps [of svc u m a tr])
    next
      case (Inl err)
      from "1.IH" [OF le Inl]
      obtain c tr' where r: "classify_attempts svc u m (a + 1)
            (tr @ Request u # after_error err a m) = (Returned c, tr')"
        and c: "c = DEFAULT_CLASSIFICATION \<or> (\<exists>n v. a + 1 \<le> n \<and> n \<le> m \<and> svc n = Parsed v \<and> validated v = Inr c)"
        by blast
      from c have "c = DEFAULT_CLASSIFICATION \<or> (\<exists>n v. a \<le> n \<and> n \<le> m \<and> svc n = Parsed v \<and> validated v = Inr c)"
        by (metis add_leD1)
      with r le Inl show ?thesis
        by (simp add: classify_attempts.simps [of svc u m a tr])
    qed
  qed
qed

lemma classifyWithOpenAI_result:
  "\<exists>c tr. classifyWithOpenAI svc t p k m = (Returned c, tr)
     \<and> (c = DEFAULT_CLASSIFICATION \<or> (\<exists>n v. svc n = Parsed v \<and> validated v = Inr c))"
proof -
  obtain u where u: "u = ''Job Title: '' @ (if t = [] then ''Unknown'' else t)
               @ [CHR 0x0A, CHR 0x0A] @ ''Job description / page content:'' @ [CHR 0x0A]
               @ (if take MAX_CONTENT_CHARS p = [] then ''(no content)'' else take MAX_CONTENT_CHARS p)" by blast
  from classify_attempts_result [of svc u m 1 "[]"]
  obtain c tr where "classify_attempts svc u m 1 [] = (Returned c, tr)"
    "c = DEFAULT_CLASSIFICATION \<or> (\<exists>n v. svc n = Parsed v \<and> validated v = Inr c)" by blast
  then show ?thesis
    unfolding classifyWithOpenAI_def Let_def u by auto
qed




lemma sleeps_append: "sleeps (xs @ ys) = sleeps xs @ sleeps ys"
  by (simp add: sleeps_def)

lemma requests_append: "requests (xs @ ys) = requests xs @ requests ys"
  by (simp add: requests_def)

lemma sleeps_Request: "sleeps (Request u # xs) = sleeps xs"
  by (simp add: sleeps_def)

lemma requests_Request: "requests (Request u # xs) = u # requests xs"
  by (simp add: requests_def)

lemma sleeps_after_error:
  "sleeps (after_error err n m) = (if isConnectionError err \<and> n < m then [2 ^ (n - 1) * 1000] else [])"
  by (simp add: sleeps_def after_error_def)

lemma requests_after_error: "requests (after_error err n m) = []"
  by (simp add: requests_def after_error_def)

lemma classify_attempts_all_fail:
  assumes "\<forall>n. a \<le> n \<and> n \<le> m \<longrightarrow> try_attempt (svc n) = Inl (errs n)"
  shows "classify_attempts svc u m a tr
    = (Returned DEFAULT_CLASSIFICATION,
       tr @ concat (map (\<lambda>n. Request u # after_error (errs n) n m) [a..<Suc m]))"
  using assms
proof (induction svc u m a tr rule: classify_attempts.induct)
  case (1 svc u m a tr)
  show ?case
  proof (cases "a \<le> m")
    case False
    then show ?thesis by (simp add: classify_attempts.simps [of svc u m a tr])
  next
    case le: True
    with "1.prems" have f: "try_attempt (svc a) = Inl (errs a)" by simp
    from "1.prems" have "\<forall>n. a + 1 \<le> n \<and> n \<le> m \<longrightarrow> try_attempt (svc n) = Inl (errs n)" by simp
    from "1.IH" [OF le f this]
    have "classify_attempts svc u m (a + 1) (tr @ Request u # after_error (errs a) a m)
      = (Returned DEFAULT_CLASSIFICATION,
         (tr @ Request u # after_error (errs a) a m)
          @ concat (map (\<lambda>n. Request u # after_error (errs n) n m) [a + 1..<Suc m]))" .
    moreover from le have "[a..<Suc m] = a # [a + 1..<Suc m]" by (simp add: upt_conv_Cons)
    ultimately show ?thesis using le f
      by (simp add: classify_attempts.simps [of svc u m a tr])
  qed
qed

lemma sleeps_all_fail:
  "a \<le> m \<Longrightarrow> sleeps (concat (map (\<lambda>n. Request u # after_error (errs n) n m) [a..<Suc m]))
     = map (\<lambda>n. 2 ^ (n - 1) * 1000) (filter (\<lambda>n. isConnectionError (errs n)) [a..<m])"
proof (induction "m - a" arbitrary: a)
  case 0
  then have "a = m" by simp
  then show ?case by (simp add: sleeps_Request sleeps_after_error)
next
  case (Suc d)
  then have lt: "a < m" and d: "d = m - (a + 1)" and le: "a + 1 \<le> m" by simp_all
  let ?f = "\<lambda>n. Request u # after_error (errs n) n m"
  from lt have u1: "[a..<Suc m] = a # [a + 1..<Suc m]" and u2: "[a..<m] = a # [a + 1..<m]"
    by (simp_all add: upt_conv_Cons)
  have ih: "sleeps (concat (map ?f [a + 1..<Suc m]))
      = map (\<lambda>n. 2 ^ (n - 1) * 1000) (filter (\<lambda>n. isConnectionError (errs n)) [a + 1..<m])"
    using Suc.hyps(1) [OF d le] .
  have s: "sleeps (?f a) = (if isConnectionError (errs a) then [2 ^ (a - 1) * 1000] else [])"
    using lt by (simp add: sleeps_Request sleeps_after_error)
  have "sleeps (concat (map ?f [a..<Suc m])) = sleeps (?f a) @ sleeps (concat (map ?f [a + 1..<Suc m]))"
    unfolding u1 by (simp add: sleeps_append sleeps_Request del: upt_Suc)
  with ih s show ?case
    unfolding u2 by simp
qed

lemma requests_all_fail:
  "length (requests (concat (map (\<lambda>n. Request u # after_error (errs n) n m) xs))) = length xs"
proof (induction xs)
  case Nil
  then show ?case by (simp add: requests_def)
next
  case (Cons x xs)
  then show ?case
    by (simp add: requests_Request requests_append requests_after_error)
qed

text \<open>
  Claim C6: \<open>classifyWithOpenAI\<close> never raises: on every input it returns a
  Classification. When the credential is empty or does not start with \<open>sk-\<close> it
  returns the default Classification and sends no request. When every attempt up to the
  retry ceiling fails it returns the default Classification after exactly that many
  requests, having paused \<open>2 ^ (n - 1)\<close> seconds after each attempt \<open>n\<close> below the
  ceiling whose error is transient.
\<close>

theorem classifyWithOpenAI_never_raises:
  "(\<exists>c tr. classifyWithOpenAI svc title pageContent apiKey maxRetries = (Returned c, tr))
   \<and> (apiKey = [] \<or> \<not> startsWith apiKey ''sk-'' \<longrightarrow>
        fst (classifyWithOpenAI svc title pageContent apiKey maxRetries)
          = Returned DEFAULT_CLASSIFICATION
        \<and> requests (snd (classifyWithOpenAI svc title pageContent apiKey maxRetries)) = [])
   \<and> (apiKey \<noteq> [] \<and> startsWith apiKey ''sk-''
        \<and> (\<forall>n. 1 \<le> n \<and> n \<le> maxRetries \<longrightarrow> try_attempt (svc n) = Inl (errs n)) \<longrightarrow>
        fst (classifyWithOpenAI svc title pageContent apiKey maxRetries)
          = Returned DEFAULT_CLASSIFICATION
        \<and> length (requests (snd (classifyWithOpenAI svc title pageContent apiKey maxRetries)))
          = maxRetries
        \<and> sleeps (snd (classifyWithOpenAI svc title pageContent apiKey maxRetries))
          = map (\<lambda>n. 2 ^ (n - 1) * 1000)
              (filter (\<lambda>n. isConnectionError (errs n)) [1..<maxRetries]))"
proof -
  have total: "\<exists>c tr. classifyWithOpenAI svc title pageContent apiKey maxRetries = (Returned c, tr)"
    using classifyWithOpenAI_result [of svc title pageContent apiKey maxRetries] by blast
  have guard: "fst (classifyWithOpenAI svc title pageContent apiKey maxRetries)
          = Returned DEFAULT_CLASSIFICATION
        \<and> requests (snd (classifyWithOpenAI svc title pageContent apiKey maxRetries)) = []"
    if "apiKey = [] \<or> \<not> startsWith apiKey ''sk-''"
    using that by (auto simp: classifyWithOpenAI_def requests_def)
  have fail: "fst (classifyWithOpenAI svc title pageContent apiKey maxRetries)
          = Returned DEFAULT_CLASSIFICATION
        \<and> length (requests (snd (classifyWithOpenAI svc title pageContent apiKey maxRetries)))
          = maxRetries
        \<and> sleeps (snd (classifyWithOpenAI svc title pageContent apiKey maxRetries))
          = map (\<lambda>n. 2 ^ (n - 1) * 1000)
              (filter (\<lambda>n. isConnectionError (errs n)) [1..<maxRetries])"
    if h: "apiKey \<noteq> [] \<and> startsWith apiKey ''sk-''
        \<and> (\<forall>n. 1 \<le> n \<and> n \<le> maxRetries \<longrightarrow> try_attempt (svc n) = Inl (errs n))"
  proof -
  define u where "u = ''Job Title: '' @ (if title = [] then ''Unknown'' else title)
               @ [CHR 0x0A, CHR 0x0A] @ ''Job description / page content:'' @ [CHR 0x0A]
               @ (if take MAX_CONTENT_CHARS pageContent = [] then ''(no content)''
                  else take MAX_CONTENT_CHARS pageContent)"
  from h have r: "classifyWithOpenAI svc title pageContent apiKey maxRetries
      = classify_attempts svc u maxRetries 1 []"
    by (simp add: classifyWithOpenAI_def Let_def u_def)
  from h have "classify_attempts svc u maxRetries 1 []
      = (Returned DEFAULT_CLASSIFICATION,
         [] @ concat (map (\<lambda>n. Request u # after_error (errs n) n maxRetries) [1..<Suc maxRetries]))"
    using classify_attempts_all_fail [of 1 maxRetries svc errs u "[]"] by simp
  with r have e: "classifyWithOpenAI svc title pageContent apiKey maxRetries
      = (Returned DEFAULT_CLASSIFICATION,
         concat (map (\<lambda>n. Request u # after_error (errs n) n maxRetries) [1..<Suc maxRetries]))"
    by simp
  have s: "sleeps (concat (map (\<lambda>n. Request u # after_error (errs n) n maxRetries) [1..<Suc maxRetries]))
      = map (\<lambda>n. 2 ^ (n - 1) * 1000) (filter (\<lambda>n. isConnectionError (errs n)) [1..<maxRetries])"
  proof (cases "1 \<le> maxRetries")
    case True
    then show ?thesis by (rule sleeps_all_fail)
  next
    case False
    then show ?thesis by (simp add: sleeps_def)
  qed
  show ?thesis
    unfolding e using s by (simp add: requests_all_fail del: upt_Suc)
  qed
  from total guard fail show ?thesis by blast
qed

text \<open>
  Claim C6, at an empty credential, a credential with the wrong prefix, and a service
  that fails three times (a time-out, a reply that parses to \<open>null\<close>, a time-out).
\<close>

theorem classifyWithOpenAI_never_raises_witness:
  "fst (classifyWithOpenAI reply_down ''Engineer'' ''text'' [] 3) = Returned DEFAULT_CLASSIFICATION
   \<and> requests (snd (classifyWithOpenAI reply_down ''Engineer'' ''text'' ''pk-key'' 3)) = []
   \<and> fst (classifyWithOpenAI reply_down ''Engineer'' ''text'' ''sk-key'' 3)
       = Returned DEFAULT_CLASSIFICATION
   \<and> length (requests (snd (classifyWithOpenAI reply_down ''Engineer'' ''text'' ''sk-key'' 3))) = 3
   \<and> sleeps (snd (classifyWithOpenAI reply_down ''Engineer'' ''text'' ''sk-key'' 3)) = [1000]"
proof -
  have f: "\<forall>n. 1 \<le> n \<and> n \<le> 3 \<longrightarrow> try_attempt (reply_down n) = Inl (errs_down n)"
    by (simp add: try_attempt_def reply_down_def errs_down_def validated_def)
  have k: "''sk-key'' \<noteq> [] \<and> startsWith ''sk-key'' ''sk-''" by (simp add: startsWith_def)
  have p: "\<not> startsWith ''pk-key'' ''sk-''" by (simp add: startsWith_def)
  have c: "filter (\<lambda>n. isConnectionError (errs_down n)) [1..<3] = [1]"
    by (simp add: upt_rec isConnectionError_def errs_down_def msg_includes_def)
  note t = classifyWithOpenAI_never_raises [of reply_down "''Engineer''" "''text''" _ 3 errs_down]
  from t [of "[]"] have 1: "fst (classifyWithOpenAI reply_down ''Engineer'' ''text'' [] 3)
      = Returned DEFAULT_CLASSIFICATION" by simp
  from t [of "''pk-key''"] p
  have 2: "requests (snd (classifyWithOpenAI reply_down ''Engineer'' ''text'' ''pk-key'' 3)) = []"
    by blast
  from t [of "''sk-key''"] k f c
  have 3: "fst (classifyWithOpenAI reply_down ''Engineer'' ''text'' ''sk-key'' 3)
       = Returned DEFAULT_CLASSIFICATION
   \<and> length (requests (snd (classifyWithOpenAI reply_down ''Engineer'' ''text'' ''sk-key'' 3))) = 3
   \<and> sleeps (snd (classifyWithOpenAI reply_down ''Engineer'' ''text'' ''sk-key'' 3)) = [1000]"
    by simp
  from 1 2 3 show ?thesis by blast
qed

section \<open>Properties of the save\<close>

lemma write_attempts_skip:
  assumes "\<forall>j<k. is_busy (dsk (nwrites w + j))" and "a + k \<le> WRITE_RETRIES"
  shows "\<exists>le'. write_attempts dsk wb a le w
    = write_attempts dsk wb (a + k) le'
        (w\<lparr>nwrites := nwrites w + k,
           trace := trace w @ map (\<lambda>n. Sleep (WRITE_RETRY_DELAY_MS * n)) [a..<a + k]\<rparr>)"
  using assms
proof (induction k arbitrary: a le w)
  case 0
  have "w\<lparr>nwrites := nwrites w + 0, trace := trace w @ map (\<lambda>n. Sleep (WRITE_RETRY_DELAY_MS * n)) [a..<a + 0]\<rparr> = w"
    by simp
  then show ?case by (intro exI [of _ le]) simp
next
  case (Suc k)
  from Suc.prems(1) have "is_busy (dsk (nwrites w + 0))" by blast
  then obtain err where err: "dsk (nwrites w) = Some err" "code err = Some ''EBUSY''"
    by (auto simp: is_busy_def split: option.splits)
  from Suc.prems(2) have lt: "a < WRITE_RETRIES" and le: "a \<le> WRITE_RETRIES" by simp_all
  let ?w = "w\<lparr>nwrites := nwrites w + 1, trace := trace w @ [Sleep (WRITE_RETRY_DELAY_MS * a)]\<rparr>"
  have step: "write_attempts dsk wb a le w = write_attempts dsk wb (a + 1) (Some err) ?w"
    using err lt le by (simp add: write_attempts.simps [of dsk wb a le w])
  have "\<forall>j<k. is_busy (dsk (nwrites ?w + j))"
  proof (intro allI impI)
    fix j assume "j < k"
    then have "Suc j < Suc k" by simp
    with Suc.prems(1) have "is_busy (dsk (nwrites w + Suc j))" by blast
    then show "is_busy (dsk (nwrites ?w + j))" by simp
  qed
  moreover from Suc.prems(2) have "(a + 1) + k \<le> WRITE_RETRIES" by simp
  ultimately obtain le' where ih: "write_attempts dsk wb (a + 1) (Some err) ?w
    = write_attempts dsk wb ((a + 1) + k) le'
        (?w\<lparr>nwrites := nwrites ?w + k,
           trace := trace ?w @ map (\<lambda>n. Sleep (WRITE_RETRY_DELAY_MS * n)) [a + 1..<(a + 1) + k]\<rparr>)"
    using Suc.IH [of ?w "a + 1" "Some err"] by blast
  have "[a..<a + Suc k] = a # [a + 1..<(a + 1) + k]" by (simp add: upt_conv_Cons)
  then have "?w\<lparr>nwrites := nwrites ?w + k,
           trace := trace ?w @ map (\<lambda>n. Sleep (WRITE_RETRY_DELAY_MS * n)) [a + 1..<(a + 1) + k]\<rparr>
    = w\<lparr>nwrites := nwrites w + Suc k,
           trace := trace w @ map (\<lambda>n. Sleep (WRITE_RETRY_DELAY_MS * n)) [a..<a + Suc k]\<rparr>"
    by simp
  with step ih have "write_attempts dsk wb a le w
    = write_attempts dsk wb (a + Suc k) le'
        (w\<lparr>nwrites := nwrites w + Suc k,
           trace := trace w @ map (\<lambda>n. Sleep (WRITE_RETRY_DELAY_MS * n)) [a..<a + Suc k]\<rparr>)"
    by simp
  then show ?case by (rule exI)
qed

text \<open>
  Claim C5: the save retries on \<open>EBUSY\<close> only. If the first \<open>k\<close> calls of
  \<open>XLSX.writeFile\<close> report \<open>EBUSY\<close>, with \<open>k\<close> below the ceiling of 5, and the
  next call succeeds, the workbook is written, after pauses of 1500 ms times the attempt
  number. If all 5 calls report \<open>EBUSY\<close>, the distinguished busy error is raised, with
  code \<open>EBUSY\<close> and its own message, and nothing is written. An error with another
  code is raised as it is, by the attempt that met it, with no further attempt.
\<close>

theorem writeWorkbookWithRetry_policy:
  "(k < WRITE_RETRIES \<and> (\<forall>j<k. is_busy (dsk (nwrites w + j))) \<and> dsk (nwrites w + k) = None \<longrightarrow>
      writeWorkbookWithRetry dsk wb w
        = (Returned (),
           w\<lparr>nwrites := nwrites w + k + 1, saved := saved w @ [wb],
              trace := trace w @ map (\<lambda>n. Sleep (WRITE_RETRY_DELAY_MS * n)) [1..<k + 1]\<rparr>))
   \<and> ((\<forall>j<WRITE_RETRIES. is_busy (dsk (nwrites w + j))) \<longrightarrow>
      writeWorkbookWithRetry dsk wb w
        = (Raised busyErr,
           w\<lparr>nwrites := nwrites w + WRITE_RETRIES,
              trace := trace w @ map (\<lambda>n. Sleep (WRITE_RETRY_DELAY_MS * n)) [1..<WRITE_RETRIES]\<rparr>)
      \<and> code busyErr = Some ''EBUSY'' \<and> message busyErr \<noteq> None)
   \<and> (k < WRITE_RETRIES \<and> (\<forall>j<k. is_busy (dsk (nwrites w + j)))
        \<and> dsk (nwrites w + k) = Some err \<and> code err \<noteq> Some ''EBUSY'' \<longrightarrow>
      writeWorkbookWithRetry dsk wb w
        = (Raised err,
           w\<lparr>nwrites := nwrites w + k + 1,
              trace := trace w @ map (\<lambda>n. Sleep (WRITE_RETRY_DELAY_MS * n)) [1..<k + 1]\<rparr>))"
proof -
  let ?sl = "\<lambda>k. map (\<lambda>n. Sleep (WRITE_RETRY_DELAY_MS * n)) [1..<k + 1]"
  have skip: "\<exists>le'. writeWorkbookWithRetry dsk wb w
      = write_attempts dsk wb (1 + k) le' (w\<lparr>nwrites := nwrites w + k, trace := trace w @ ?sl k\<rparr>)"
    if "k < WRITE_RETRIES" "\<forall>j<k. is_busy (dsk (nwrites w + j))" for k
    using write_attempts_skip [of k dsk w 1 wb None] that
    by (simp add: writeWorkbookWithRetry_def)
  have ok: "writeWorkbookWithRetry dsk wb w
        = (Returned (), w\<lparr>nwrites := nwrites w + k + 1, saved := saved w @ [wb], trace := trace w @ ?sl k\<rparr>)"
    if h: "k < WRITE_RETRIES \<and> (\<forall>j<k. is_busy (dsk (nwrites w + j))) \<and> dsk (nwrites w + k) = None"
  proof -
    from h skip [of k] obtain le' where "writeWorkbookWithRetry dsk wb w
      = write_attempts dsk wb (1 + k) le' (w\<lparr>nwrites := nwrites w + k, trace := trace w @ ?sl k\<rparr>)"
      by blast
    with h show ?thesis
      by (simp add: write_attempts.simps [of dsk wb "Suc k"])
  qed
  have busy: "writeWorkbookWithRetry dsk wb w
        = (Raised busyErr, w\<lparr>nwrites := nwrites w + WRITE_RETRIES,
              trace := trace w @ map (\<lambda>n. Sleep (WRITE_RETRY_DELAY_MS * n)) [1..<WRITE_RETRIES]\<rparr>)
      \<and> code busyErr = Some ''EBUSY'' \<and> message busyErr \<noteq> None"
    if h: "\<forall>j<WRITE_RETRIES. is_busy (dsk (nwrites w + j))"
  proof -
    have 4: "(4::nat) < WRITE_RETRIES" by (simp add: WRITE_RETRIES_def)
    with h have "\<forall>j<4. is_busy (dsk (nwrites w + j))" by simp
    with 4 skip [of 4] obtain le' where r: "writeWorkbookWithRetry dsk wb w
      = write_attempts dsk wb (1 + 4) le' (w\<lparr>nwrites := nwrites w + 4, trace := trace w @ ?sl 4\<rparr>)"
      by blast
    from h 4 have "is_busy (dsk (nwrites w + 4))" by blast
    then obtain err where "dsk (nwrites w + 4) = Some err" "code err = Some ''EBUSY''"
      by (auto simp: is_busy_def split: option.splits)
    with r show ?thesis
      by (simp add: write_attempts.simps [of dsk wb 5] WRITE_RETRIES_def busyErr_def)
  qed
  have other: "writeWorkbookWithRetry dsk wb w
        = (Raised err, w\<lparr>nwrites := nwrites w + k + 1, trace := trace w @ ?sl k\<rparr>)"
    if h: "k < WRITE_RETRIES \<and> (\<forall>j<k. is_busy (dsk (nwrites w + j)))
        \<and> dsk (nwrites w + k) = Some err \<and> code err \<noteq> Some ''EBUSY''"
  proof -
    from h skip [of k] obtain le' where "writeWorkbookWithRetry dsk wb w
      = write_attempts dsk wb (1 + k) le' (w\<lparr>nwrites := nwrites w + k, trace := trace w @ ?sl k\<rparr>)"
      by blast
    with h show ?thesis
      by (simp add: write_attempts.simps [of dsk wb "Suc k"])
  qed
  show ?thesis
    apply (rule conjI)
     apply (rule impI, erule ok)
    apply (rule conjI)
     apply (rule impI, erule busy)
    apply (rule impI, erule other)
    done
qed

text \<open>
  Claim C5, at a disk that is busy twice, a disk that is always busy, and a disk
  that denies access.
\<close>

theorem writeWorkbookWithRetry_policy_witness:
  "writeWorkbookWithRetry disk_busy_twice book0 world0
     = (Returned (), \<lparr>nwrites = 3, saved = [book0], trace = [Sleep 1500, Sleep 3000]\<rparr>)
   \<and> writeWorkbookWithRetry disk_always_busy book0 world0
     = (Raised busyErr,
        \<lparr>nwrites = 5, saved = [], trace = [Sleep 1500, Sleep 3000, Sleep 4500, Sleep 6000]\<rparr>)
   \<and> writeWorkbookWithRetry disk_denied book0 world0
     = (Raised eacces, \<lparr>nwrites = 1, saved = [], trace = []\<rparr>)"
proof -
  have a: "(2::nat) < WRITE_RETRIES \<and> (\<forall>j<2. is_busy (disk_busy_twice (nwrites world0 + j)))
      \<and> disk_busy_twice (nwrites world0 + 2) = None"
    by (simp add: WRITE_RETRIES_def disk_busy_twice_def is_busy_def ebusy_def world0_def)
  have b: "\<forall>j<WRITE_RETRIES. is_busy (disk_always_busy (nwrites world0 + j))"
    by (simp add: disk_always_busy_def is_busy_def ebusy_def)
  have c: "(0::nat) < WRITE_RETRIES \<and> (\<forall>j<0. is_busy (disk_denied (nwrites world0 + j)))
      \<and> disk_denied (nwrites world0 + 0) = Some eacces \<and> code eacces \<noteq> Some ''EBUSY''"
    by (simp add: WRITE_RETRIES_def disk_denied_def eacces_def)
  have n: "[Suc 0..<3] = [1, 2]" "[Suc 0..<5] = [1, 2, 3, 4]" by (simp_all add: upt_rec)
  from writeWorkbookWithRetry_policy [of 2 disk_busy_twice world0 book0] a
  have 1: "writeWorkbookWithRetry disk_busy_twice book0 world0
     = (Returned (), \<lparr>nwrites = 3, saved = [book0], trace = [Sleep 1500, Sleep 3000]\<rparr>)"
    by (simp add: world0_def WRITE_RETRY_DELAY_MS_def n)
  from writeWorkbookWithRetry_policy [of _ disk_always_busy world0 book0] b
  have 2: "writeWorkbookWithRetry disk_always_busy book0 world0
     = (Raised busyErr,
        \<lparr>nwrites = 5, saved = [], trace = [Sleep 1500, Sleep 3000, Sleep 4500, Sleep 6000]\<rparr>)"
    by (simp add: world0_def WRITE_RETRY_DELAY_MS_def WRITE_RETRIES_def n)
  from writeWorkbookWithRetry_policy [of 0 disk_denied world0 book0 eacces] c
  have 3: "writeWorkbookWithRetry disk_denied book0 world0
     = (Raised eacces, \<lparr>nwrites = 1, saved = [], trace = []\<rparr>)"
    by (simp add: world0_def)
  from 1 2 3 show ?thesis by blast
qed

section \<open>Properties of the fetcher\<close>

text \<open>
  No statement of the fetcher closes the browser: once \<open>chromium.launch\<close> has
  succeeded, the browser is open when the call returns, whatever happens next.
\<close>

lemma perform_browser: "browserOpen s \<Longrightarrow> browserOpen (perform st s)"
  by (cases st) simp_all

lemma run_steps_browser:
  "browserOpen s \<Longrightarrow> browserOpen (snd (run_steps thr k sts s))"
  by (induction sts arbitrary: k s) (auto simp: perform_browser split: option.splits)

lemma fetchPageContent_browser_open:
  assumes "throws r 0 = None"
  shows "browserOpen (fst (snd (fetchPageContent r url)))"
proof -
  let ?s0 = "\<lparr>browserOpen = False, pageOpen = False\<rparr>"
  obtain rest where f: "fetch_steps url = Launch # rest" by (simp add: fetch_steps_def)
  from assms have "run_steps (throws r) 0 (fetch_steps url) ?s0
      = run_steps (throws r) 1 rest (?s0\<lparr>browserOpen := True\<rparr>)"
    by (simp add: f)
  moreover have "browserOpen (snd (run_steps (throws r) 1 rest (?s0\<lparr>browserOpen := True\<rparr>)))"
    by (rule run_steps_browser) simp
  ultimately have "browserOpen (snd (run_steps (throws r) 0 (fetch_steps url) ?s0))" by simp
  then show ?thesis
    by (auto simp: fetchPageContent_def split: prod.splits option.splits)
qed

lemma fetchPageContent_returns:
  "\<exists>t s tr. fetchPageContent r url = (Returned t, s, tr)"
  by (auto simp: fetchPageContent_def split: prod.splits option.splits)

lemma fetchPageContent_failure:
  "fst (run_steps (throws r) 0 (fetch_steps url) \<lparr>browserOpen = False, pageOpen = False\<rparr>) = Some err
   \<Longrightarrow> fst (fetchPageContent r url) = Returned []"
  by (auto simp: fetchPageContent_def split: prod.splits option.splits)

text \<open>
  Claim C8 does not hold of the code: \<open>fetchPageContent\<close> never closes the browser,
  and closes the page only when nothing has thrown. When every statement succeeds the call
  returns the text with the browser still open; when \<open>page.goto\<close> throws it logs a
  warning and returns the empty string with both the browser and the page still open.
\<close>

theorem fetchPageContent_leaves_browser_open:
  "fetchPageContent render_ok ''https://jobs.example.com/posting/42''
     = (Returned ''Job text'', \<lparr>browserOpen = True, pageOpen = False\<rparr>, [])
   \<and> fetchPageContent render_goto_fails ''https://jobs.example.com/posting/42''
     = (Returned [], \<lparr>browserOpen = True, pageOpen = True\<rparr>,
        [Console ''warn''
           ''Failed to fetch https://jobs.example.com/posting/42: net::ERR_NAME_NOT_RESOLVED''])"
  by code_simp

section \<open>Properties of the orchestrator\<close>

text \<open>
  Claim C10: when the input file exists and the sheet has no data rows,
  \<open>analyzeJobLinks\<close> raises nothing (the check for the \<open>Link\<close> column passes
  without looking at a row), calls \<open>XLSX.writeFile\<close> not once, and returns the path
  of the input file and the name \<open>JobLinks.xlsx\<close>.
\<close>

theorem analyzeJobLinks_no_rows:
  assumes "fileExists e" and "readRows e = Inr []"
  shows "analyzeJobLinks e
    = (Returned (inputPath e, ''JobLinks.xlsx''), \<lparr>nwrites = 0, saved = [], trace = []\<rparr>)"
  using assms by (simp add: analyzeJobLinks_def Let_def row_loop.simps [of _ _ "[]"])

text \<open>
  Claim C10, at a run over an existing, empty sheet.
\<close>

theorem analyzeJobLinks_no_rows_witness:
  "analyzeJobLinks env_empty
    = (Returned (''/srv/backend/output/JobLinks.xlsx'', ''JobLinks.xlsx''),
       \<lparr>nwrites = 0, saved = [], trace = []\<rparr>)"
proof -
  have "fileExists env_empty" and "readRows env_empty = Inr []"
    by (simp_all add: env_empty_def)
  from analyzeJobLinks_no_rows [OF this] show ?thesis by (simp add: env_empty_def)
qed

lemma process_row_returns: "\<exists>m tr. process_row e k i row = (Returned m, tr)"
proof (cases "link_of row = []")
  case True
  then show ?thesis by (simp add: process_row_def)
next
  case False
  obtain t s tr1 where f: "fetchPageContent (renderer e i) (refinedLink (urlParser e) (link_of row))
      = (Returned t, s, tr1)"
    using fetchPageContent_returns by blast
  obtain c tr2 where c: "classifyWithOpenAI (service e i) (title_of row) t k 3 = (Returned c, tr2)"
    using classifyWithOpenAI_result by blast
  from False f c show ?thesis by (simp add: process_row_def Let_def)
qed

lemma merged_at_eq:
  "process_row e k j (rows ! j) = (Returned m, tr) \<Longrightarrow> merged_at e k rows j = m"
  by (simp add: merged_at_def)

lemma write_attempts_saved:
  "write_attempts dsk wb a le w = (out, w')
   \<Longrightarrow> saved w' = (case out of Returned u \<Rightarrow> saved w @ [wb] | Raised err \<Rightarrow> saved w)"
proof (induction dsk wb a le w rule: write_attempts.induct)
  case (1 dsk wb a le w)
  show ?case
  proof (cases "a \<le> WRITE_RETRIES")
    case False
    with "1.prems" show ?thesis
      by (auto simp: write_attempts.simps [of dsk wb a le w])
  next
    case le: True
    show ?thesis
    proof (cases "dsk (nwrites w)")
      case None
      with le "1.prems" show ?thesis
        by (auto simp: write_attempts.simps [of dsk wb a le w])
    next
      case (Some err)
      show ?thesis
      proof (cases "code err = Some ''EBUSY'' \<and> a < WRITE_RETRIES")
        case True
        with le Some "1.prems"
        have "write_attempts dsk wb (a + 1) (Some err)
                 (w\<lparr>nwrites := nwrites w + 1,
                    trace := trace w @ [Sleep (WRITE_RETRY_DELAY_MS * a)]\<rparr>) = (out, w')"
          by (simp add: write_attempts.simps [of dsk wb a le w])
        from "1.IH" [OF le Some True this] show ?thesis by (cases out) simp_all
      next
        case False
        with le Some "1.prems" show ?thesis
          by (auto simp: write_attempts.simps [of dsk wb a le w] split: if_splits)
      qed
    qed
  qed
qed

lemma row_step_saved:
  assumes "process_row e k i (rows ! i) = (Returned m, tr)"
    and "row_step e k rows i results w = (out, results', w')"
  shows "results' = results @ [m]
    \<and> saved w' = (case out of
         Returned u \<Rightarrow> saved w @ [\<lparr>headers = map fst ((results @ [m]) ! 0),
            fullRows = (results @ [m])
              @ map (unprocessed_row (map fst ((results @ [m]) ! 0))) (drop (i + 1) rows)\<rparr>]
       | Raised err \<Rightarrow> saved w)"
proof -
  let ?wb = "\<lparr>headers = map fst ((results @ [m]) ! 0),
            fullRows = (results @ [m])
              @ map (unprocessed_row (map fst ((results @ [m]) ! 0))) (drop (i + 1) rows)\<rparr>"
  let ?w = "w\<lparr>trace := trace w @ tr\<rparr>"
  obtain o1 w1 where wr: "writeWorkbookWithRetry (disk e) ?wb ?w = (o1, w1)"
    by (cases "writeWorkbookWithRetry (disk e) ?wb ?w") auto
  then have s: "saved w1 = (case o1 of Returned u \<Rightarrow> saved ?w @ [?wb] | Raised err \<Rightarrow> saved ?w)"
    unfolding writeWorkbookWithRetry_def by (rule write_attempts_saved)
  from assms wr s show ?thesis
    by (cases o1) (auto simp: row_step_def Let_def split: if_splits)
qed

lemma row_loop_saved:
  assumes "row_loop e k rows i results w = (out, w')"
    and "i \<le> length rows"
    and "results = map (merged_at e k rows) [0..<i]"
  shows "\<exists>n. saved w' = saved w @ map (snapshot e k rows) [i..<i + n]
      \<and> i + n \<le> length rows \<and> (out = Returned () \<longrightarrow> i + n = length rows)"
  using assms
proof (induction e k rows i results w rule: row_loop.induct)
  case (1 e k rows i results w)
  show ?case
  proof (cases "i < length rows")
    case False
    from False "1.prems"(1) have "w' = w"
      by (simp add: row_loop.simps [of e k rows i results w])
    moreover from False "1.prems"(2) have "i = length rows" by simp
    ultimately have "saved w' = saved w @ map (snapshot e k rows) [i..<i + 0] \<and> i + 0 \<le> length rows
        \<and> (out = Returned () \<longrightarrow> i + 0 = length rows)" by simp
    then show ?thesis by blast
  next
    case lt: True
    obtain m tr where pr: "process_row e k i (rows ! i) = (Returned m, tr)"
      using process_row_returns by blast
    then have m: "merged_at e k rows i = m" by (rule merged_at_eq)
    obtain o1 res1 w1 where st: "row_step e k rows i results w = (o1, res1, w1)"
      by (cases "row_step e k rows i results w") auto
    have res: "results @ [m] = map (merged_at e k rows) [0..<i + 1]"
      using "1.prems"(3) m by simp
    then have hd0: "(results @ [m]) ! 0 = merged_at e k rows 0"
      by (simp add: nth_append del: upt_Suc map_append)
    from row_step_saved [OF pr st]
    have r1: "res1 = results @ [m]"
      and s1: "saved w1 = (case o1 of
         Returned u \<Rightarrow> saved w @ [\<lparr>headers = map fst ((results @ [m]) ! 0),
            fullRows = (results @ [m])
              @ map (unprocessed_row (map fst ((results @ [m]) ! 0))) (drop (i + 1) rows)\<rparr>]
       | Raised err \<Rightarrow> saved w)"
      by simp_all
    have wb: "\<lparr>headers = map fst ((results @ [m]) ! 0),
            fullRows = (results @ [m])
              @ map (unprocessed_row (map fst ((results @ [m]) ! 0))) (drop (i + 1) rows)\<rparr>
        = snapshot e k rows i"
      by (simp only: hd0) (simp only: res snapshot_def)
    show ?thesis
    proof (cases o1)
      case (Raised err)
      with lt st "1.prems"(1) have "out = Raised err" "w' = w1"
        by (simp_all add: row_loop.simps [of e k rows i results w])
      with Raised s1 have "saved w' = saved w @ map (snapshot e k rows) [i..<i + 0]
          \<and> i + 0 \<le> length rows \<and> (out = Returned () \<longrightarrow> i + 0 = length rows)"
        using lt by simp
      then show ?thesis by blast
    next
      case (Returned u)
      with lt st "1.prems"(1) have rec: "row_loop e k rows (i + 1) res1 w1 = (out, w')"
        by (simp add: row_loop.simps [of e k rows i results w])
      from lt have le1: "i + 1 \<le> length rows" by simp
      have "(o1, res1, w1) = row_step e k rows i results w" using st by simp
      from "1.IH" [OF lt this _ _ rec le1] Returned r1 res
      obtain n where n: "saved w' = saved w1 @ map (snapshot e k rows) [i + 1..<i + 1 + n]"
        "i + 1 + n \<le> length rows" "out = Returned () \<longrightarrow> i + 1 + n = length rows"
        by auto
      from Returned s1 wb have "saved w1 = saved w @ [snapshot e k rows i]" by simp
      with n(1) have "saved w' = saved w @ map (snapshot e k rows) [i..<i + (n + 1)]"
        by (simp add: upt_conv_Cons del: upt_Suc)
      with n(2,3) have "saved w' = saved w @ map (snapshot e k rows) [i..<i + (n + 1)]
          \<and> i + (n + 1) \<le> length rows \<and> (out = Returned () \<longrightarrow> i + (n + 1) = length rows)"
        by simp
      then show ?thesis by blast
    qed
  qed
qed

lemma map_of_fold_update:
  "map_of (fold (\<lambda>h. AList.update h (f h)) hs acc) k
     = (if k \<in> set hs then Some (f k) else map_of acc k)"
  by (induction hs arbitrary: acc) (auto simp: update_conv')

lemma cell_unprocessed_row:
  assumes "set (map fst r) \<subseteq> set hs"
  shows "cell (unprocessed_row hs r) k = cell r k"
proof (cases "k \<in> set hs")
  case True
  then show ?thesis
    by (simp add: cell_def unprocessed_row_def map_of_fold_update split: option.splits)
next
  case False
  with assms have "k \<notin> set (map fst r)" by blast
  then have "map_of r k = None" by (simp add: map_of_eq_None_iff)
  with False show ?thesis
    by (simp add: cell_def unprocessed_row_def map_of_fold_update)
qed

lemma keys_fold_update:
  "set (map fst (fold (\<lambda>(k, v). AList.update k v) kvs row)) = set (map fst row) \<union> set (map fst kvs)"
  by (induction kvs arbitrary: row) (auto simp: dom_update split: prod.splits)

lemma keys_merged_row: "set (map fst row) \<subseteq> set (map fst (merged_row row d r l c))"
  unfolding merged_row_def keys_fold_update by blast

lemma process_row_merged:
  "process_row e k i row = (Returned m, tr) \<Longrightarrow> \<exists>r l c. m = merged_row row (today e) r l c"
  by (auto simp: process_row_def Let_def split: if_splits prod.splits outcome.splits)

lemma process_row_empty_link:
  "link_of row = [] \<Longrightarrow>
   process_row e k i row = (Returned (merged_row row (today e) [] [] DEFAULT_CLASSIFICATION), [])"
  by (simp add: process_row_def)

lemma merged_at_process:
  "fst (process_row e k j (rows ! j)) = Returned (merged_at e k rows j)"
proof -
  obtain m tr where "process_row e k j (rows ! j) = (Returned m, tr)"
    using process_row_returns by blast
  then show ?thesis by (simp add: merged_at_def)
qed

lemma keys_merged_at: "set (map fst (rows ! j)) \<subseteq> set (map fst (merged_at e k rows j))"
proof -
  obtain m tr where p: "process_row e k j (rows ! j) = (Returned m, tr)"
    using process_row_returns by blast
  then obtain r l c where "m = merged_row (rows ! j) (today e) r l c"
    using process_row_merged by blast
  with p show ?thesis
    using keys_merged_row [of "rows ! j" "today e" r l c] by (simp add: merged_at_def)
qed

lemma snapshot_length:
  "i < length rows \<Longrightarrow> length (fullRows (snapshot e k rows i)) = length rows"
  by (simp add: snapshot_def)

lemma snapshot_processed:
  "j \<le> i \<Longrightarrow> fullRows (snapshot e k rows i) ! j = merged_at e k rows j"
proof -
  assume "j \<le> i"
  then have "j < length (map (merged_at e k rows) [0..<i + 1])" by simp
  then have "fullRows (snapshot e k rows i) ! j = map (merged_at e k rows) [0..<i + 1] ! j"
    by (simp add: snapshot_def nth_append del: upt_Suc)
  also from \<open>j \<le> i\<close> have "\<dots> = merged_at e k rows j"
    by (simp del: upt_Suc add: nth_map_upt)
  finally show ?thesis .
qed

lemma snapshot_unprocessed:
  assumes "i < j" and "j < length rows"
  shows "fullRows (snapshot e k rows i) ! j
    = unprocessed_row (map fst (merged_at e k rows 0)) (rows ! j)"
proof -
  from assms have "fullRows (snapshot e k rows i) ! j
      = map (unprocessed_row (map fst (merged_at e k rows 0))) (drop (i + 1) rows) ! (j - (i + 1))"
    by (simp add: snapshot_def nth_append del: upt_Suc)
  also from assms have "\<dots> = unprocessed_row (map fst (merged_at e k rows 0)) (rows ! j)"
    by simp
  finally show ?thesis .
qed

lemma analyze_saved:
  assumes "readRows e = Inr rows"
  shows "\<exists>n. saved (snd (analyzeJobLinks e)) = map (snapshot e (apiKey_of e) rows) [0..<n]
      \<and> n \<le> length rows
      \<and> (\<forall>p. fst (analyzeJobLinks e) = Returned p \<longrightarrow> n = length rows)"
proof -
  let ?w0 = "\<lparr>nwrites = 0, saved = [], trace = []\<rparr>"
  have none: ?thesis if "saved (snd (analyzeJobLinks e)) = []"
    "\<forall>p. fst (analyzeJobLinks e) \<noteq> Returned p"
  proof -
    from that have "saved (snd (analyzeJobLinks e)) = map (snapshot e (apiKey_of e) rows) [0..<0]
      \<and> 0 \<le> length rows
      \<and> (\<forall>p. fst (analyzeJobLinks e) = Returned p \<longrightarrow> 0 = length rows)" by simp
    then show ?thesis by blast
  qed
  show ?thesis
  proof (cases "fileExists e \<and> (rows = [] \<or> ''Link'' \<in> set (map fst (rows ! 0)))")
    case False
    with assms have "saved (snd (analyzeJobLinks e)) = []"
      "\<forall>p. fst (analyzeJobLinks e) \<noteq> Returned p"
      by (auto simp: analyzeJobLinks_def Let_def)
    then show ?thesis by (rule none)
  next
    case True
    obtain out w where l: "row_loop e (apiKey_of e) rows 0 [] ?w0 = (out, w)"
      by (cases "row_loop e (apiKey_of e) rows 0 [] ?w0") auto
    from row_loop_saved [OF l] obtain n where n: "saved w = map (snapshot e (apiKey_of e) rows) [0..<n]"
      "n \<le> length rows" "out = Returned () \<longrightarrow> n = length rows"
      by auto
    from True assms l have a: "snd (analyzeJobLinks e) = w"
      "\<forall>p. fst (analyzeJobLinks e) = Returned p \<longrightarrow> out = Returned ()"
      by (auto simp: analyzeJobLinks_def Let_def split: outcome.splits)
    with n have "saved (snd (analyzeJobLinks e)) = map (snapshot e (apiKey_of e) rows) [0..<n]
      \<and> n \<le> length rows
      \<and> (\<forall>p. fst (analyzeJobLinks e) = Returned p \<longrightarrow> n = length rows)" by simp
    then show ?thesis by blast
  qed
qed

lemma analyze_saved_nth:
  assumes "readRows e = Inr rows" and "i < length (saved (snd (analyzeJobLinks e)))"
  shows "i < length rows \<and> saved (snd (analyzeJobLinks e)) ! i = snapshot e (apiKey_of e) rows i"
proof -
  from analyze_saved [OF assms(1)] obtain n
    where n: "saved (snd (analyzeJobLinks e)) = map (snapshot e (apiKey_of e) rows) [0..<n]"
      "n \<le> length rows" by blast
  with assms(2) have "i < n" by simp
  with n show ?thesis by (simp del: upt_Suc)
qed

text \<open>
  Claim C1: in every run over a table whose rows have no column beyond those of the
  first row, the table that the save after row \<open>i\<close> writes has as many rows as the
  input; its rows \<open>0..i\<close> are the merged rows that the loop body produced, and each
  row after \<open>i\<close> reads in every column as the original row does. A run that returns
  has saved once for each row.
\<close>

theorem snapshot_after_row:
  assumes "readRows e = Inr rows"
    and "\<forall>r\<in>set rows. set (map fst r) \<subseteq> set (map fst (rows ! 0))"
    and "i < length (saved (snd (analyzeJobLinks e)))"
  shows "i < length rows
    \<and> length (fullRows (saved (snd (analyzeJobLinks e)) ! i)) = length rows
    \<and> (\<forall>j\<le>i. fst (process_row e (apiKey_of e) j (rows ! j))
          = Returned (fullRows (saved (snd (analyzeJobLinks e)) ! i) ! j))
    \<and> (\<forall>j k. i < j \<and> j < length rows \<longrightarrow>
          cell (fullRows (saved (snd (analyzeJobLinks e)) ! i) ! j) k = cell (rows ! j) k)
    \<and> (\<forall>p. fst (analyzeJobLinks e) = Returned p \<longrightarrow>
          length (saved (snd (analyzeJobLinks e))) = length rows)"
proof -
  let ?k = "apiKey_of e"
  from analyze_saved_nth [OF assms(1,3)]
  have i: "i < length rows" and s: "saved (snd (analyzeJobLinks e)) ! i = snapshot e ?k rows i"
    by simp_all
  have len: "length (fullRows (snapshot e ?k rows i)) = length rows"
    using i by (rule snapshot_length)
  have proc: "fst (process_row e ?k j (rows ! j)) = Returned (fullRows (snapshot e ?k rows i) ! j)"
    if "j \<le> i" for j
    using that by (simp add: snapshot_processed merged_at_process)
  have rest: "cell (fullRows (snapshot e ?k rows i) ! j) k = cell (rows ! j) k"
    if "i < j \<and> j < length rows" for j k
  proof -
    from that assms(2) have "set (map fst (rows ! j)) \<subseteq> set (map fst (rows ! 0))" by simp
    also have "\<dots> \<subseteq> set (map fst (merged_at e ?k rows 0))" by (rule keys_merged_at)
    finally have "cell (unprocessed_row (map fst (merged_at e ?k rows 0)) (rows ! j)) k = cell (rows ! j) k"
      by (rule cell_unprocessed_row)
    with that show ?thesis by (simp add: snapshot_unprocessed)
  qed
  have all: "length (saved (snd (analyzeJobLinks e))) = length rows"
    if "fst (analyzeJobLinks e) = Returned p" for p
  proof -
    from analyze_saved [OF assms(1)] that obtain n
      where "saved (snd (analyzeJobLinks e)) = map (snapshot e ?k rows) [0..<n]" "n = length rows"
      by blast
    then show ?thesis by simp
  qed
  from i len proc rest all show ?thesis unfolding s by blast
qed

text \<open>
  Claim C1, at the first save of a run over two rows.
\<close>

theorem snapshot_after_row_witness:
  "length (fullRows (saved (snd (analyzeJobLinks env_two_rows)) ! 0)) = 2
   \<and> fst (process_row env_two_rows ''sk-key'' 0 (two_rows ! 0))
       = Returned (fullRows (saved (snd (analyzeJobLinks env_two_rows)) ! 0) ! 0)
   \<and> cell (fullRows (saved (snd (analyzeJobLinks env_two_rows)) ! 0) ! 1) ''Title'' = JStr ''QA''
   \<and> cell (fullRows (saved (snd (analyzeJobLinks env_two_rows)) ! 0) ! 1) ''Remote'' = JStr []"
proof -
  have r: "readRows env_two_rows = Inr two_rows" by (simp add: env_two_rows_def)
  have u: "\<forall>r\<in>set two_rows. set (map fst r) \<subseteq> set (map fst (two_rows ! 0))"
    by (simp add: two_rows_def)
  have "length (saved (snd (analyzeJobLinks env_two_rows))) = 2" by code_simp
  then have l: "0 < length (saved (snd (analyzeJobLinks env_two_rows)))" by simp
  have k: "apiKey_of env_two_rows = ''sk-key''" by (simp add: apiKey_of_def env_two_rows_def)
  have n: "length two_rows = 2" by (simp add: two_rows_def)
  have c: "cell (two_rows ! 1) ''Title'' = JStr ''QA''" "cell (two_rows ! 1) ''Remote'' = JStr []"
    by (simp_all add: two_rows_def cell_def)
  from snapshot_after_row [OF r u l] k n c show ?thesis by simp
qed

text \<open>
  Claim C7: for a row whose link is empty or missing, the loop body makes no fetch and
  no classify call (its trace is empty) and merges the default Classification: every
  Classification column of the merged row holds its default. The merged row is row \<open>i\<close>
  of the table that the save after row \<open>i\<close> writes.
\<close>

theorem empty_link_row:
  assumes "link_of row = []"
  shows "process_row e k i row
      = (Returned (merged_row row (today e) [] [] DEFAULT_CLASSIFICATION), [])
    \<and> map (cell (merged_row row (today e) [] [] DEFAULT_CLASSIFICATION))
        [''Link'', ''Remote'', ''BestStack'', ''AllPossibleStacks'', ''SecretRequired'',
         ''GovernanceAndSecurityPhrases'', ''Industry'', ''AnnualSalary'', ''Level'']
      = [JStr [], JStr ''N/A'', JStr ''N/A'', JStr [], JStr ''No'', JStr [], JStr ''N/A'',
         JStr ''N/A'', JStr ''N/A'']
    \<and> (readRows e = Inr rows \<and> i < length (saved (snd (analyzeJobLinks e))) \<and> rows ! i = row
         \<and> k = apiKey_of e \<longrightarrow>
       fullRows (saved (snd (analyzeJobLinks e)) ! i) ! i
         = merged_row row (today e) [] [] DEFAULT_CLASSIFICATION)"
proof -
  let ?m = "merged_row row (today e) [] [] DEFAULT_CLASSIFICATION"
  have p: "process_row e k i row = (Returned ?m, [])"
    using assms by (rule process_row_empty_link)
  have c: "map (cell ?m)
        [''Link'', ''Remote'', ''BestStack'', ''AllPossibleStacks'', ''SecretRequired'',
         ''GovernanceAndSecurityPhrases'', ''Industry'', ''AnnualSalary'', ''Level'']
      = [JStr [], JStr ''N/A'', JStr ''N/A'', JStr [], JStr ''No'', JStr [], JStr ''N/A'',
         JStr ''N/A'', JStr ''N/A'']"
    by (simp add: cell_def merged_row_def update_conv' DEFAULT_CLASSIFICATION_def join_def)
  have s: "fullRows (saved (snd (analyzeJobLinks e)) ! i) ! i = ?m"
    if h: "readRows e = Inr rows \<and> i < length (saved (snd (analyzeJobLinks e))) \<and> rows ! i = row
         \<and> k = apiKey_of e"
  proof -
    from h analyze_saved_nth [of e rows i]
    have "saved (snd (analyzeJobLinks e)) ! i = snapshot e (apiKey_of e) rows i" by simp
    then have "fullRows (saved (snd (analyzeJobLinks e)) ! i) ! i = merged_at e (apiKey_of e) rows i"
      by (simp add: snapshot_processed)
    also from h p have "\<dots> = ?m" by (simp add: merged_at_def)
    finally show ?thesis .
  qed
  from p c s show ?thesis by blast
qed

text \<open>
  Claim C7, at the second row, which has an empty link, of a run over two rows.
\<close>

theorem empty_link_row_witness:
  "process_row env_two_rows ''sk-key'' 1 (two_rows ! 1)
      = (Returned (merged_row (two_rows ! 1) ''11/2/2026'' [] [] DEFAULT_CLASSIFICATION), [])
   \<and> cell (merged_row (two_rows ! 1) ''11/2/2026'' [] [] DEFAULT_CLASSIFICATION) ''Level''
      = JStr ''N/A''
   \<and> fullRows (saved (snd (analyzeJobLinks env_two_rows)) ! 1) ! 1
      = merged_row (two_rows ! 1) ''11/2/2026'' [] [] DEFAULT_CLASSIFICATION"
proof -
  have l: "link_of (two_rows ! 1) = []" by code_simp
  have r: "readRows env_two_rows = Inr two_rows" by (simp add: env_two_rows_def)
  have "length (saved (snd (analyzeJobLinks env_two_rows))) = 2" by code_simp
  then have i: "1 < length (saved (snd (analyzeJobLinks env_two_rows)))" by simp
  have k: "''sk-key'' = apiKey_of env_two_rows" by (simp add: apiKey_of_def env_two_rows_def)
  have t: "today env_two_rows = ''11/2/2026''" by (simp add: env_two_rows_def)
  from empty_link_row [OF l, of env_two_rows "''sk-key''" 1 two_rows] r i k t
  show ?thesis by simp
qed

end
